theory Spec2Isabelle
  imports Main "HOL-Library.Word" "HOL-Library.Multiset"
begin

section \<open>Strings and formatting helpers used by the call-graph code\<close>

text \<open>
  Go's \<^verbatim>\<open>strings.Split(s, ":")\<close>: the pieces of \<open>s\<close> between the separators, in
  order; a string without separator gives the one-element list holding \<open>s\<close>, and the
  empty string gives one empty piece. Strings are byte lists.
\<close>

fun strings_Split :: "string \<Rightarrow> char \<Rightarrow> string list" where
  "strings_Split [] sep = [[]]"
| "strings_Split (c # cs) sep =
     (if c = sep then [] # strings_Split cs sep
      else (case strings_Split cs sep of
              [] \<Rightarrow> [[c]]
            | p # ps \<Rightarrow> (c # p) # ps))"

text \<open>Go's \<^verbatim>\<open>strings.Join(elems, sep)\<close>.\<close>

fun strings_Join :: "string list \<Rightarrow> string \<Rightarrow> string" where
  "strings_Join [] sep = []"
| "strings_Join [x] sep = x"
| "strings_Join (x # y # ys) sep = x @ sep @ strings_Join (y # ys) sep"

text \<open>The verb \<^verbatim>\<open>%d\<close> of \<^verbatim>\<open>fmt.Sprintf\<close> on an integer: decimal digits, a minus sign first
  for a negative number.\<close>

fun digitsOf :: "nat \<Rightarrow> string" where
  "digitsOf n =
     (if n < 10 then [char_of (48 + n)]
      else digitsOf (n div 10) @ [char_of (48 + n mod 10)])"

declare digitsOf.simps [simp del]

definition fmt_d :: "int \<Rightarrow> string" where
  "fmt_d i = (if i < 0 then CHR ''-'' # digitsOf (nat (- i)) else digitsOf (nat i))"

text \<open>
  \<^verbatim>\<open>extractFunctionName\<close> (callgraph.go): the third colon-separated piece of a function
  identifier when there are at least three pieces, the identifier itself otherwise.
\<close>

definition extractFunctionName :: "string \<Rightarrow> string" where
  "extractFunctionName funcID =
     (let parts = strings_Split funcID (CHR '':'')
      in if length parts \<ge> 3 then parts ! 2 else funcID)"

section \<open>The directed graph of the graph library\<close>

text \<open>
  The call graph stores its vertices and edges in a directed, unweighted graph of the
  library \<^verbatim>\<open>github.com/dominikbraun/graph\<close>, whose vertices are hashed by their own string.
  The library is a dependency, not part of the sources; the three operations the code
  calls are described here after the library's documentation. \<^verbatim>\<open>AddVertex\<close> refuses a
  vertex that is already there, \<^verbatim>\<open>AddEdge\<close> refuses an edge whose end points are not both
  vertices or that is already there; \<^verbatim>\<open>BuildCallGraph\<close> discards both errors
  (\<^verbatim>\<open>_ = g.AddVertex(...)\<close>), so a refused operation leaves the graph as it was.
\<close>

record Graph =
  vertices :: "string list"
  edges :: "(string \<times> string) list"

definition graph_New :: Graph where
  "graph_New = \<lparr>vertices = [], edges = []\<rparr>"

definition AddVertex :: "Graph \<Rightarrow> string \<Rightarrow> Graph" where
  "AddVertex gr v =
     (if v \<in> set (vertices gr) then gr else gr\<lparr>vertices := vertices gr @ [v]\<rparr>)"

definition AddEdge :: "Graph \<Rightarrow> string \<Rightarrow> string \<Rightarrow> Graph" where
  "AddEdge gr u v =
     (if u \<notin> set (vertices gr) \<or> v \<notin> set (vertices gr) then gr
      else if (u, v) \<in> set (edges gr) then gr
      else gr\<lparr>edges := edges gr @ [(u, v)]\<rparr>)"

text \<open>
  \<^verbatim>\<open>graph.ShortestPath(g, from, to)\<close> is the third library operation. The analysis code
  is written against it, so the model takes it as a parameter of this type: \<open>None\<close>
  stands for a returned error or a nil path, \<open>Some p\<close> for the vertex sequence \<open>p\<close>.
\<close>

type_synonym shortestPathFn = "Graph \<Rightarrow> string \<Rightarrow> string \<Rightarrow> string list option"

section \<open>The call graph (callgraph.go)\<close>

text \<open>
  Of \<^verbatim>\<open>parser.Function\<close> the call graph reads the identifier, the name and the names of
  the callees. Of \<^verbatim>\<open>CallGraph\<close> the reachability analysis reads the graph \<^verbatim>\<open>g\<close> and the
  name index \<^verbatim>\<open>functions\<close>; the legacy edge maps and the path cache are never read by it
  and are left out.
\<close>

record Function =
  ID :: string
  Name :: string
  Callees :: "string list"

record CallGraph =
  cg_g :: Graph
  cg_functions :: "string \<rightharpoonup> string list"

text \<open>Reading a Go map at a missing key gives the nil slice.\<close>

definition functionIDs :: "CallGraph \<Rightarrow> string \<Rightarrow> string list" where
  "functionIDs cg name = (case cg_functions cg name of None \<Rightarrow> [] | Some ids \<Rightarrow> ids)"

fun addVertices :: "Function list \<Rightarrow> CallGraph \<Rightarrow> CallGraph" where
  "addVertices [] cg = cg"
| "addVertices (f # fs) cg =
     addVertices fs
       (cg\<lparr>cg_g := AddVertex (cg_g cg) (ID f),
           cg_functions := (cg_functions cg)(Name f \<mapsto> functionIDs cg (Name f) @ [ID f])\<rparr>)"

definition addCalleeEdges :: "string \<Rightarrow> string list \<Rightarrow> Graph \<Rightarrow> Graph" where
  "addCalleeEdges callerID calleeIDs gr =
     foldl (\<lambda>gr' calleeID. AddEdge gr' callerID calleeID) gr calleeIDs"

definition addCallerEdges :: "(string \<rightharpoonup> string list) \<Rightarrow> Function \<Rightarrow> Graph \<Rightarrow> Graph" where
  "addCallerEdges fm caller gr =
     foldl (\<lambda>gr' callee. case fm callee of
                            None \<Rightarrow> gr'
                          | Some calleeIDs \<Rightarrow> addCalleeEdges (ID caller) calleeIDs gr')
           gr (Callees caller)"

definition BuildCallGraph :: "Function list \<Rightarrow> CallGraph" where
  "BuildCallGraph fs =
     (let cg = addVertices fs \<lparr>cg_g = graph_New, cg_functions = Map.empty\<rparr>
      in cg\<lparr>cg_g := foldl (\<lambda>gr caller. addCallerEdges (cg_functions cg) caller gr) (cg_g cg) fs\<rparr>)"

section \<open>Reachability analysis (callgraph.go)\<close>

record ReachabilityAnalysis =
  IsValid :: bool
  Reason :: string
  CallChains :: "string list list"
  CommonCallers :: "string list"
  Details :: string
  MinDepth :: int
  MaxDepth :: int

datatype RelationshipType =
  NoRelationship | SameFunction | ForwardReachable | BackwardReachable | CommonAncestor

text \<open>
  The analyzer's accumulated state. \<^verbatim>\<open>commonCallers\<close> is a Go set
  (\<^verbatim>\<open>map[string]bool\<close>); it is kept as the list of its keys without repetition.
\<close>

record reachabilityAnalyzer =
  ra_graph :: Graph
  ra_maxDepth :: int
  sourceFuncName :: string
  targetFuncName :: string
  foundRelationship :: bool
  relationshipType :: RelationshipType
  allPaths :: "string list list"
  commonCallers :: "string list"

text \<open>A run-time panic of the Go code is a value of the model.\<close>

datatype panic = IndexOutOfRange

definition findPaths ::
  "shortestPathFn \<Rightarrow> reachabilityAnalyzer \<Rightarrow> string \<Rightarrow> string \<Rightarrow> string list list" where
  "findPaths sp ra from_id to_id =
     (let searchDepth = (if ra_maxDepth ra > 5 then 5 else ra_maxDepth ra)
      in case sp (ra_graph ra) from_id to_id of
           None \<Rightarrow> []
         | Some shortestPath \<Rightarrow>
             if int (length shortestPath) - 1 > searchDepth then []
             else [map extractFunctionName shortestPath])"

definition findCommonAncestors :: "reachabilityAnalyzer \<Rightarrow> string \<Rightarrow> string \<Rightarrow> string list" where
  "findCommonAncestors ra sourceID targetID = []"

fun addPaths :: "reachabilityAnalyzer \<Rightarrow> string list list \<Rightarrow> reachabilityAnalyzer" where
  "addPaths ra [] = ra"
| "addPaths ra (path # paths) =
     (if length (allPaths ra) \<ge> 10 then ra
      else addPaths (ra\<lparr>allPaths := allPaths ra @ [path]\<rparr>) paths)"

definition storeCallers :: "reachabilityAnalyzer \<Rightarrow> string list \<Rightarrow> reachabilityAnalyzer" where
  "storeCallers ra callers =
     foldl (\<lambda>ra' caller.
              if extractFunctionName caller \<in> set (commonCallers ra') then ra'
              else ra'\<lparr>commonCallers := commonCallers ra' @ [extractFunctionName caller]\<rparr>)
           ra callers"

definition analyzePair ::
  "shortestPathFn \<Rightarrow> reachabilityAnalyzer \<Rightarrow> string \<Rightarrow> string \<Rightarrow> reachabilityAnalyzer" where
  "analyzePair sp ra sourceID targetID =
     (if sourceID = targetID then
        ra\<lparr>foundRelationship := True, relationshipType := SameFunction,
           allPaths := allPaths ra @ [[extractFunctionName sourceID]]\<rparr>
      else if length (findPaths sp ra sourceID targetID) > 0 then
        addPaths (ra\<lparr>foundRelationship := True, relationshipType := ForwardReachable\<rparr>)
          (findPaths sp ra sourceID targetID)
      else if length (findPaths sp ra targetID sourceID) > 0 then
        addPaths (ra\<lparr>foundRelationship := True, relationshipType := BackwardReachable\<rparr>)
          (findPaths sp ra targetID sourceID)
      else if length (findCommonAncestors ra sourceID targetID) > 0 then
        (let callers = findCommonAncestors ra sourceID targetID;
             ra1 = ra\<lparr>foundRelationship := True, relationshipType := CommonAncestor\<rparr>;
             firstCaller = hd callers;
             ra2 = addPaths ra1 (findPaths sp ra1 firstCaller sourceID);
             ra3 = addPaths ra2 (findPaths sp ra2 firstCaller targetID)
         in storeCallers ra3 callers)
      else ra)"

text \<open>
  \<^verbatim>\<open>calculatePathDepths\<close>. The second loop reads the last element of the first path and
  of every later path; on an empty path that index is \<open>-1\<close> and Go panics.
\<close>

fun depthLoop :: "int \<times> int \<Rightarrow> string list list \<Rightarrow> int \<times> int" where
  "depthLoop (mn, mx) [] = (mn, mx)"
| "depthLoop (mn, mx) (path # paths) =
     (let depth = int (length path) - 1
      in depthLoop (if depth < mn then depth else mn, if depth > mx then depth else mx) paths)"

fun sumLoop :: "string \<Rightarrow> int \<Rightarrow> string list list \<Rightarrow> int \<Rightarrow> panic + int" where
  "sumLoop lastFunc1 d0 [] mx = Inr mx"
| "sumLoop lastFunc1 d0 (path # paths) mx =
     (if path = [] then Inl IndexOutOfRange
      else if lastFunc1 \<noteq> last path then
        (let totalDepth = d0 + (int (length path) - 1)
         in sumLoop lastFunc1 d0 paths (if totalDepth > mx then totalDepth else mx))
      else sumLoop lastFunc1 d0 paths mx)"

definition calculatePathDepths :: "string list list \<Rightarrow> panic + (int \<times> int)" where
  "calculatePathDepths paths =
     (case paths of
        [] \<Rightarrow> Inr (0, 0)
      | p0 # rest \<Rightarrow>
          (let d0 = int (length p0) - 1;
               (mn, mx) = depthLoop (d0, d0) rest
           in if length paths \<ge> 2 then
                (if p0 = [] then Inl IndexOutOfRange
                 else (case sumLoop (last p0) d0 rest mx of
                         Inl e \<Rightarrow> Inl e
                       | Inr mx' \<Rightarrow> Inr (mn, mx')))
              else Inr (mn, mx)))"

text \<open>\<^verbatim>\<open>deduplicatePaths\<close>: a path is kept when its key, the names joined by \<^verbatim>\<open>->\<close>, was
  not seen before.\<close>

fun dedupLoop :: "string list \<Rightarrow> string list list \<Rightarrow> string list list" where
  "dedupLoop seen [] = []"
| "dedupLoop seen (path # paths) =
     (let key = strings_Join path ''->''
      in if key \<in> set seen then dedupLoop seen paths
         else path # dedupLoop (key # seen) paths)"

definition deduplicatePaths :: "string list list \<Rightarrow> string list list" where
  "deduplicatePaths paths = dedupLoop [] paths"

text \<open>The arrow of the two chain messages is the UTF-8 encoding of U+2192.\<close>

definition arrow :: string where
  "arrow = [CHR 0xE2, CHR 0x86, CHR 0x92]"

definition relationshipText :: "reachabilityAnalyzer \<Rightarrow> string \<times> string" where
  "relationshipText ra =
     (case relationshipType ra of
        SameFunction \<Rightarrow>
          (''Functions are the same'',
           ''Both operations occur in the same function: '' @ sourceFuncName ra)
      | ForwardReachable \<Rightarrow>
          (''Source function can reach target function'',
           if length (allPaths ra) > 0 \<and> length (allPaths ra ! 0) = 2
           then ''Direct call: '' @ sourceFuncName ra @ '' calls '' @ targetFuncName ra
           else ''Call chain: '' @ sourceFuncName ra @ '' '' @ arrow @ '' '' @ targetFuncName ra)
      | BackwardReachable \<Rightarrow>
          (''Target function can reach source function'',
           if length (allPaths ra) > 0 \<and> length (allPaths ra ! 0) = 2
           then ''Reverse call: '' @ targetFuncName ra @ '' calls '' @ sourceFuncName ra
           else ''Reverse call chain: '' @ targetFuncName ra @ '' '' @ arrow @ '' ''
                  @ sourceFuncName ra)
      | CommonAncestor \<Rightarrow>
          (''Functions have common caller'',
           if length (commonCallers ra) = 1
           then ''Common caller: '' @ hd (commonCallers ra) @ '' calls both ''
                  @ sourceFuncName ra @ '' and '' @ targetFuncName ra
           else ''Found '' @ fmt_d (int (length (commonCallers ra)))
                  @ '' common callers that reach both functions'')
      | NoRelationship \<Rightarrow> ([], []))"

definition buildResult :: "reachabilityAnalyzer \<Rightarrow> panic + ReachabilityAnalysis" where
  "buildResult ra =
     (if \<not> foundRelationship ra then
        Inr \<lparr>IsValid = False,
             Reason = ''No reachability relationship found between functions'',
             CallChains = [], CommonCallers = [],
             Details = ''No direct calls, reverse calls, or common callers found between ''
                       @ sourceFuncName ra @ '' and '' @ targetFuncName ra
                       @ '' within depth '' @ fmt_d (ra_maxDepth ra),
             MinDepth = 0, MaxDepth = 0\<rparr>
      else
        (let (relationship, details) = relationshipText ra;
             callerList = take 10 (commonCallers ra)
         in case calculatePathDepths (allPaths ra) of
              Inl e \<Rightarrow> Inl e
            | Inr (minDepth, maxDepth) \<Rightarrow>
                Inr \<lparr>IsValid = True, Reason = relationship,
                     CallChains = deduplicatePaths (allPaths ra),
                     CommonCallers = callerList, Details = details,
                     MinDepth = minDepth, MaxDepth = maxDepth\<rparr>))"

text \<open>The two nested loops of \<^verbatim>\<open>AnalyzeReachability\<close>, each left as soon as a
  relationship is found.\<close>

fun targetLoop ::
  "shortestPathFn \<Rightarrow> reachabilityAnalyzer \<Rightarrow> string \<Rightarrow> string list \<Rightarrow> reachabilityAnalyzer" where
  "targetLoop sp ra sourceID [] = ra"
| "targetLoop sp ra sourceID (targetID # targetIDs) =
     (let ra' = analyzePair sp ra sourceID targetID
      in if foundRelationship ra' then ra' else targetLoop sp ra' sourceID targetIDs)"

fun sourceLoop ::
  "shortestPathFn \<Rightarrow> reachabilityAnalyzer \<Rightarrow> string list \<Rightarrow> string list \<Rightarrow> reachabilityAnalyzer" where
  "sourceLoop sp ra [] targetIDs = ra"
| "sourceLoop sp ra (sourceID # sourceIDs) targetIDs =
     (let ra' = targetLoop sp ra sourceID targetIDs
      in if foundRelationship ra' then ra' else sourceLoop sp ra' sourceIDs targetIDs)"

definition newAnalyzer :: "CallGraph \<Rightarrow> string \<Rightarrow> string \<Rightarrow> int \<Rightarrow> reachabilityAnalyzer" where
  "newAnalyzer cg sourceName targetName maxDepth =
     \<lparr>ra_graph = cg_g cg, ra_maxDepth = maxDepth,
      sourceFuncName = sourceName, targetFuncName = targetName,
      foundRelationship = False, relationshipType = NoRelationship,
      allPaths = [], commonCallers = []\<rparr>"

definition runAnalyzer ::
  "shortestPathFn \<Rightarrow> CallGraph \<Rightarrow> string \<Rightarrow> string \<Rightarrow> int \<Rightarrow> reachabilityAnalyzer" where
  "runAnalyzer sp cg sourceName targetName maxDepth =
     sourceLoop sp (newAnalyzer cg sourceName targetName maxDepth)
       (functionIDs cg sourceName) (functionIDs cg targetName)"

definition AnalyzeReachability ::
  "shortestPathFn \<Rightarrow> CallGraph \<Rightarrow> string \<Rightarrow> string \<Rightarrow> int \<Rightarrow> panic + ReachabilityAnalysis" where
  "AnalyzeReachability sp cg sourceFuncName' targetFuncName' maxDepth =
     (if length (functionIDs cg sourceFuncName') = 0 then
        Inr \<lparr>IsValid = False, Reason = ''Free function not found in call graph'',
             CallChains = [], CommonCallers = [],
             Details = ''Function '' @ [CHR 0x27] @ sourceFuncName' @ [CHR 0x27]
                       @ '' was not found in the parsed codebase'',
             MinDepth = 0, MaxDepth = 0\<rparr>
      else if length (functionIDs cg targetFuncName') = 0 then
        Inr \<lparr>IsValid = False, Reason = ''Use function not found in call graph'',
             CallChains = [], CommonCallers = [],
             Details = ''Function '' @ [CHR 0x27] @ targetFuncName' @ [CHR 0x27]
                       @ '' was not found in the parsed codebase'',
             MinDepth = 0, MaxDepth = 0\<rparr>
      else buildResult (runAnalyzer sp cg sourceFuncName' targetFuncName' maxDepth))"

section \<open>Walks and the contract of the library's shortest path\<close>

text \<open>
  A walk is a non-empty vertex sequence whose consecutive vertices are joined by edges;
  a walk of \<open>n\<close> vertices has \<open>n - 1\<close> edges.
\<close>

definition is_walk :: "Graph \<Rightarrow> string list \<Rightarrow> bool" where
  "is_walk gr p = (p \<noteq> [] \<and> successively (\<lambda>u v. (u, v) \<in> set (edges gr)) p)"

definition walk_between :: "Graph \<Rightarrow> string \<Rightarrow> string \<Rightarrow> string list \<Rightarrow> bool" where
  "walk_between gr a b p = (is_walk gr p \<and> hd p = a \<and> last p = b)"

text \<open>
  What the library documents for \<^verbatim>\<open>ShortestPath\<close> on an unweighted graph, where every
  edge weighs one: an error when the target cannot be reached from the source, and
  otherwise a path from source to target with the fewest edges, an arbitrary one when
  several are shortest. Theorems that depend on what the library returns assume this
  contract of the parameter.
\<close>

definition shortestPathContract :: "shortestPathFn \<Rightarrow> Graph \<Rightarrow> bool" where
  "shortestPathContract sp gr =
     (\<forall>a b. case sp gr a b of
              None \<Rightarrow> (\<forall>p. \<not> walk_between gr a b p)
            | Some p \<Rightarrow> walk_between gr a b p \<and>
                        (\<forall>q. walk_between gr a b q \<longrightarrow> length p \<le> length q))"

text \<open>
  A reference implementation of the contract, used to run the analysis on concrete
  graphs: it enumerates the walks from the source by increasing number of edges and
  returns the first that ends at the target. No shortest walk repeats a vertex, so
  lengths up to the number of edges suffice.
\<close>

definition successors :: "Graph \<Rightarrow> string \<Rightarrow> string list" where
  "successors gr u = map snd (filter (\<lambda>e. fst e = u) (edges gr))"

fun walksFrom :: "Graph \<Rightarrow> string \<Rightarrow> nat \<Rightarrow> string list list" where
  "walksFrom gr a 0 = [[a]]"
| "walksFrom gr a (Suc n) =
     concat (map (\<lambda>p. map (\<lambda>v. p @ [v]) (successors gr (last p))) (walksFrom gr a n))"

fun searchByLength :: "Graph \<Rightarrow> string \<Rightarrow> string \<Rightarrow> nat \<Rightarrow> nat \<Rightarrow> string list option" where
  "searchByLength gr a b 0 k = None"
| "searchByLength gr a b (Suc fuel) k =
     (case find (\<lambda>p. last p = b) (walksFrom gr a k) of
        Some p \<Rightarrow> Some p
      | None \<Rightarrow> searchByLength gr a b fuel (Suc k))"

definition refShortestPath :: shortestPathFn where
  "refShortestPath gr a b = searchByLength gr a b (Suc (length (edges gr))) 0"


section \<open>Registries as the parser builds them\<close>

text \<open>
  parser.go gives every function the identifier
  \<^verbatim>\<open>fmt.Sprintf("%s:%d:%s", filename, function.StartLine, functionName)\<close>.
\<close>

definition functionID :: "string \<Rightarrow> int \<Rightarrow> string \<Rightarrow> string" where
  "functionID filename startLine functionName =
     filename @ '':'' @ fmt_d startLine @ '':'' @ functionName"

definition parsedFunction :: "string \<Rightarrow> int \<Rightarrow> string \<Rightarrow> string list \<Rightarrow> Function" where
  "parsedFunction filename startLine functionName callees =
     \<lparr>ID = functionID filename startLine functionName, Name = functionName, Callees = callees\<rparr>"

text \<open>A chain of eight functions, each calling the next, in one file.\<close>

definition chain_registry :: "Function list" where
  "chain_registry =
     [parsedFunction ''chain.c'' 1 ''f0'' [''f1''],
      parsedFunction ''chain.c'' 11 ''f1'' [''f2''],
      parsedFunction ''chain.c'' 21 ''f2'' [''f3''],
      parsedFunction ''chain.c'' 31 ''f3'' [''f4''],
      parsedFunction ''chain.c'' 41 ''f4'' [''f5''],
      parsedFunction ''chain.c'' 51 ''f5'' [''f6''],
      parsedFunction ''chain.c'' 61 ''f6'' [''f7''],
      parsedFunction ''chain.c'' 71 ''f7'' []]"

text \<open>Two functions in a file whose path holds a colon (a drive letter, or a directory
  so named): \<open>A\<close> calls \<open>B\<close>.\<close>

definition drive_registry :: "Function list" where
  "drive_registry =
     [parsedFunction ''C:/proj/a.c'' 3 ''A'' [''B''],
      parsedFunction ''C:/proj/a.c'' 9 ''B'' []]"

text \<open>A caller \<open>main\<close> of two functions that do not call each other.\<close>

definition fork_registry :: "Function list" where
  "fork_registry =
     [parsedFunction ''fork.c'' 1 ''main'' [''do_free'', ''do_use''],
      parsedFunction ''fork.c'' 20 ''do_free'' [],
      parsedFunction ''fork.c'' 30 ''do_use'' []]"


section \<open>Findings and the worker body of the enrichment pipeline\<close>

record CodeQLResult =
  ObjName :: string
  FreeFunctionName :: string
  FreeFunctionFile :: string
  FreeFunctionDefLine :: int
  FreeLine :: int
  UseFunctionName :: string
  UseFunctionFile :: string
  UseFunctionDefLine :: int
  UseLine :: int

record FunctionCode =
  DefinitionWithLineNumbers :: string
  Snippet :: string

record SourceCode =
  FreeFunction :: FunctionCode
  UseFunction :: FunctionCode
  IntermediateFunctions :: "FunctionCode list"

text \<open>\<^verbatim>\<open>CallValidation\<close> is an alias of \<^verbatim>\<open>ReachabilityAnalysis\<close>; the finding holds a pointer
  to one, nil until the validation ran.\<close>

record Finding =
  CodeQLResult :: CodeQLResult
  SourceCode :: SourceCode
  CallValidation :: "ReachabilityAnalysis option"

text \<open>
  What the enricher reads from outside the program: its source directory, the number of
  processors, path joining, the parser's cached lookup of a function by identifier
  (an error message, or the function's numbered definition), a line of a file, and the
  lookup of a function's code by name. They are parameters of the model; an error is its
  message.
\<close>

record enricherEnv =
  sourceDir :: string
  NumCPU :: int
  filepath_Join :: "string \<Rightarrow> string \<Rightarrow> string"
  FindFunctionByID :: "string \<Rightarrow> string \<Rightarrow> string + string"
  getLineFromFile :: "string \<Rightarrow> int \<Rightarrow> string + string"
  findFunctionByName :: "string \<Rightarrow> string + FunctionCode"

definition emptySourceCode :: SourceCode where
  "emptySourceCode =
     \<lparr>FreeFunction = \<lparr>DefinitionWithLineNumbers = [], Snippet = []\<rparr>,
      UseFunction = \<lparr>DefinitionWithLineNumbers = [], Snippet = []\<rparr>,
      IntermediateFunctions = []\<rparr>"

definition snippetOr :: "string + string \<Rightarrow> int \<Rightarrow> string" where
  "snippetOr got line =
     (case got of
        Inl err \<Rightarrow> ''// Could not retrieve line '' @ fmt_d line @ '': '' @ err
      | Inr text \<Rightarrow> text)"

definition enrichWithSourceCode :: "enricherEnv \<Rightarrow> CodeQLResult \<Rightarrow> string + Finding" where
  "enrichWithSourceCode e result =
     (let freeID = filepath_Join e (sourceDir e) (FreeFunctionFile result) @ '':''
                     @ fmt_d (FreeFunctionDefLine result) @ '':'' @ FreeFunctionName result;
          useID = filepath_Join e (sourceDir e) (UseFunctionFile result) @ '':''
                     @ fmt_d (UseFunctionDefLine result) @ '':'' @ UseFunctionName result
      in case FindFunctionByID e (sourceDir e) freeID of
           Inl err \<Rightarrow> Inl (''failed to find free function '' @ freeID @ '': '' @ err)
         | Inr freeDef \<Rightarrow>
             (case FindFunctionByID e (sourceDir e) useID of
                Inl err \<Rightarrow> Inl (''failed to find use function '' @ useID @ '': '' @ err)
              | Inr useDef \<Rightarrow>
                  (let freeSnippet =
                         snippetOr (getLineFromFile e
                                      (filepath_Join e (sourceDir e) (FreeFunctionFile result))
                                      (FreeLine result))
                                   (FreeLine result);
                       useSnippet =
                         snippetOr (getLineFromFile e
                                      (filepath_Join e (sourceDir e) (UseFunctionFile result))
                                      (UseLine result))
                                   (UseLine result)
                   in Inr \<lparr>CodeQLResult = result,
                           SourceCode =
                             \<lparr>FreeFunction = \<lparr>DefinitionWithLineNumbers = freeDef,
                                               Snippet = freeSnippet\<rparr>,
                              UseFunction = \<lparr>DefinitionWithLineNumbers = useDef,
                                              Snippet = useSnippet\<rparr>,
                              IntermediateFunctions = []\<rparr>,
                           CallValidation = None\<rparr>)))"

text \<open>
  \<^verbatim>\<open>extractIntermediateFunctions\<close> collects the chain names other than the two end
  functions in a Go set and lists the set; Go fixes no order for that listing, the model
  lists each name once, in the order of the last occurrences.
\<close>

definition extractIntermediateFunctions ::
  "string list list \<Rightarrow> string \<Rightarrow> string \<Rightarrow> string list" where
  "extractIntermediateFunctions callChains freeFunc useFunc =
     remdups (filter (\<lambda>funcName. funcName \<noteq> freeFunc \<and> funcName \<noteq> useFunc)
                     (concat callChains))"

definition intermediateCode :: "enricherEnv \<Rightarrow> string \<Rightarrow> FunctionCode" where
  "intermediateCode e funcName =
     (case findFunctionByName e funcName of
        Inl err \<Rightarrow> \<lparr>DefinitionWithLineNumbers = ''// Function '' @ funcName @ '' not found'',
                     Snippet = []\<rparr>
      | Inr funcCode \<Rightarrow> funcCode)"

definition ValidateCallRelationship ::
  "shortestPathFn \<Rightarrow> CallGraph \<Rightarrow> string \<Rightarrow> string \<Rightarrow> int \<Rightarrow> panic + ReachabilityAnalysis" where
  "ValidateCallRelationship sp cg freeFuncName useFuncName maxDepth =
     AnalyzeReachability sp cg freeFuncName useFuncName maxDepth"

text \<open>
  The statistics are three \<^verbatim>\<open>atomic.Int32\<close> counters. A worker's \<^verbatim>\<open>Add(1)\<close> is an event;
  the counters after a run are the events applied in the order in which they happened.
\<close>

datatype statEvent = IncTotal | IncValid | IncInvalid

record validationStats =
  total :: "32 word"
  valid :: "32 word"
  invalid :: "32 word"

fun applyEvent :: "validationStats \<Rightarrow> statEvent \<Rightarrow> validationStats" where
  "applyEvent st IncTotal = st\<lparr>total := total st + 1\<rparr>"
| "applyEvent st IncValid = st\<lparr>valid := valid st + 1\<rparr>"
| "applyEvent st IncInvalid = st\<lparr>invalid := invalid st + 1\<rparr>"

definition countersAfter :: "statEvent list \<Rightarrow> validationStats" where
  "countersAfter evs = foldl applyEvent \<lparr>total = 0, valid = 0, invalid = 0\<rparr> evs"

text \<open>
  The body of the worker loop of \<^verbatim>\<open>EnrichResults\<close> for one work item: the counter
  events it performs, in order, and the finding it sends (\<open>None\<close> for the nil finding of
  a result that is filtered out). The error of the work result is nil on every path.
  A nil call graph is \<open>None\<close>.
\<close>

definition processItem ::
  "enricherEnv \<Rightarrow> shortestPathFn \<Rightarrow> CallGraph option \<Rightarrow> bool \<Rightarrow> int \<Rightarrow> CodeQLResult
     \<Rightarrow> panic + (statEvent list \<times> Finding option)" where
  "processItem e sp callGraph validateCalls callDepth result =
     (let finding = (case enrichWithSourceCode e result of
                       Inl err \<Rightarrow> \<lparr>CodeQLResult = result, SourceCode = emptySourceCode,
                                    CallValidation = None\<rparr>
                     | Inr f \<Rightarrow> f)
      in case callGraph of
           None \<Rightarrow> Inr ([], Some finding)
         | Some cg \<Rightarrow>
             if \<not> validateCalls then Inr ([], Some finding)
             else
               (let searchDepth = (if callDepth < 0 then 10 else callDepth)
                in case ValidateCallRelationship sp cg (FreeFunctionName result)
                          (UseFunctionName result) searchDepth of
                     Inl p \<Rightarrow> Inl p
                   | Inr validation \<Rightarrow>
                       (let finding1 = finding\<lparr>CallValidation := Some validation\<rparr>
                        in if IsValid validation then
                             (if callDepth \<ge> 0 \<and> MaxDepth validation > callDepth
                              then Inr ([IncTotal, IncInvalid], None)
                              else
                                (let intermediateFuncs =
                                       extractIntermediateFunctions (CallChains validation)
                                         (FreeFunctionName result) (UseFunctionName result)
                                 in Inr ([IncTotal, IncValid],
                                         Some (finding1\<lparr>SourceCode :=
                                            (SourceCode finding1)
                                              \<lparr>IntermediateFunctions :=
                                                 IntermediateFunctions (SourceCode finding1)
                                                 @ map (intermediateCode e) intermediateFuncs\<rparr>\<rparr>))))
                           else Inr ([IncTotal, IncInvalid], None))))"

definition numWorkersFor :: "enricherEnv \<Rightarrow> int \<Rightarrow> int" where
  "numWorkersFor e concurrency =
     (if concurrency \<le> 0 then (if NumCPU e > 16 then 16 else NumCPU e) else concurrency)"

section \<open>The worker pool as a transition system\<close>

text \<open>
  \<^verbatim>\<open>EnrichResults\<close> and \<^verbatim>\<open>WorkerPool.ProcessItems\<close> run the same pool: every item is put,
  with its index, on a buffered work channel that is then closed; a fixed number of
  workers each take the next item, process it and send the result with the item's index
  on the result channel; the caller reads the result channel until it is closed, which
  happens when all workers have returned.

  A pool is described by the number of workers, the number of items, what the processing
  of the item with a given index does (a panic, or the counter events in order and the
  payload of the result), and whether a worker may find the context done when it takes
  an item (the workers of \<^verbatim>\<open>ProcessItems\<close> then return; the workers of
  \<^verbatim>\<open>EnrichResults\<close> have no context).
\<close>

record 'r poolConfig =
  numWorkers :: nat
  numItems :: nat
  outcome :: "nat \<Rightarrow> panic + (statEvent list \<times> 'r)"
  cancellable :: bool

text \<open>
  A state of the run: the indices still on the work channel, the items in the hands of
  workers (index, counter events still to perform, payload), the results sent so far in
  the order of sending, the counter events performed so far, the number of workers that
  have not returned, and whether a worker has panicked.
\<close>

record 'r poolState =
  pending :: "nat list"
  busy :: "(nat \<times> statEvent list \<times> 'r) multiset"
  resultChan :: "(nat \<times> 'r) list"
  trace :: "statEvent list"
  live :: nat
  crashed :: bool

definition initialState :: "'r poolConfig \<Rightarrow> 'r poolState" where
  "initialState cfg =
     \<lparr>pending = [0..<numItems cfg], busy = {#}, resultChan = [], trace = [],
      live = numWorkers cfg, crashed = False\<rparr>"

text \<open>
  One step of one worker: it takes an item (which may panic, or find the context done and
  return), performs the next counter event of the item in its hands, or sends the result.
  A worker is free to take an item when fewer items are in hand than workers are alive.
\<close>

inductive poolStep :: "'r poolConfig \<Rightarrow> 'r poolState \<Rightarrow> 'r poolState \<Rightarrow> bool"
  for cfg :: "'r poolConfig" where
  take:
    "\<not> crashed s \<Longrightarrow> pending s = i # rest \<Longrightarrow> size (busy s) < live s \<Longrightarrow>
     outcome cfg i = Inr (evs, r) \<Longrightarrow>
     poolStep cfg s (s\<lparr>pending := rest, busy := add_mset (i, evs, r) (busy s)\<rparr>)"
| panics:
    "\<not> crashed s \<Longrightarrow> pending s = i # rest \<Longrightarrow> size (busy s) < live s \<Longrightarrow>
     outcome cfg i = Inl p \<Longrightarrow>
     poolStep cfg s (s\<lparr>pending := rest, crashed := True\<rparr>)"
| cancelled:
    "cancellable cfg \<Longrightarrow> \<not> crashed s \<Longrightarrow> pending s = i # rest \<Longrightarrow>
     size (busy s) < live s \<Longrightarrow>
     poolStep cfg s (s\<lparr>pending := rest, live := live s - 1\<rparr>)"
| count:
    "\<not> crashed s \<Longrightarrow> busy s = add_mset (i, ev # evs, r) B \<Longrightarrow>
     poolStep cfg s (s\<lparr>busy := add_mset (i, evs, r) B, trace := trace s @ [ev]\<rparr>)"
| send:
    "\<not> crashed s \<Longrightarrow> busy s = add_mset (i, [], r) B \<Longrightarrow>
     poolStep cfg s (s\<lparr>busy := B, resultChan := resultChan s @ [(i, r)]\<rparr>)"

inductive reachable :: "'r poolConfig \<Rightarrow> 'r poolState \<Rightarrow> bool"
  for cfg :: "'r poolConfig" where
  start: "reachable cfg (initialState cfg)"
| step: "reachable cfg s \<Longrightarrow> poolStep cfg s s' \<Longrightarrow> reachable cfg s'"

text \<open>The run is over, and the result channel closed, when no worker holds an item and
  either the work channel is drained or every worker has returned.\<close>

definition finished :: "'r poolState \<Rightarrow> bool" where
  "finished s = (\<not> crashed s \<and> busy s = {#} \<and> (pending s = [] \<or> live s = 0))"

section \<open>What the callers do with the results\<close>

text \<open>
  \<^verbatim>\<open>EnrichResults\<close> stores every non-nil finding in a map under its index, then walks the
  indices in input order and appends the findings it stored. It returns that slice and
  a nil error.
\<close>

definition collectFindings :: "(nat \<times> Finding option) list \<Rightarrow> (nat \<rightharpoonup> Finding)" where
  "collectFindings rs =
     foldl (\<lambda>findingsMap (index, finding).
              case finding of None \<Rightarrow> findingsMap | Some f \<Rightarrow> findingsMap(index \<mapsto> f))
           Map.empty rs"

definition orderedResults :: "nat \<Rightarrow> (nat \<rightharpoonup> Finding) \<Rightarrow> Finding list" where
  "orderedResults n findingsMap = List.map_filter findingsMap [0..<n]"

definition enrichPool ::
  "enricherEnv \<Rightarrow> shortestPathFn \<Rightarrow> CodeQLResult list \<Rightarrow> CallGraph option \<Rightarrow> bool \<Rightarrow> int \<Rightarrow> int
     \<Rightarrow> Finding option poolConfig" where
  "enrichPool e sp results callGraph validateCalls callDepth concurrency =
     \<lparr>numWorkers = nat (numWorkersFor e concurrency),
      numItems = length results,
      outcome = (\<lambda>i. processItem e sp callGraph validateCalls callDepth (results ! i)),
      cancellable = False\<rparr>"

definition EnrichResults_return ::
  "nat \<Rightarrow> Finding option poolState \<Rightarrow> Finding list \<times> string option" where
  "EnrichResults_return n s = (orderedResults n (collectFindings (resultChan s)), None)"

text \<open>
  \<^verbatim>\<open>ProcessItems\<close> returns at once on an empty input. Otherwise it fills a slice of
  \<open>numItems\<close> zero values: every result with an index in range is stored at its index,
  and the first error seen, in the order of arrival, is kept. A result is the processor's
  value with its error (\<open>None\<close> for nil).
\<close>

definition storeResult ::
  "nat \<Rightarrow> 'b list \<times> string option \<Rightarrow> nat \<times> 'b \<times> string option \<Rightarrow> 'b list \<times> string option" where
  "storeResult n acc res =
     (case (acc, res) of
        ((results, firstErr), (index, data, err)) \<Rightarrow>
          if index < n
          then (results[index := data],
                if err \<noteq> None \<and> firstErr = None then err else firstErr)
          else (results, firstErr))"

definition processPool ::
  "nat \<Rightarrow> bool \<Rightarrow> 'a list \<Rightarrow> ('a \<Rightarrow> 'b \<times> string option) \<Rightarrow> ('b \<times> string option) poolConfig" where
  "processPool concurrency ctxCancellable items processor =
     \<lparr>numWorkers = concurrency,
      numItems = length items,
      outcome = (\<lambda>i. Inr ([], processor (items ! i))),
      cancellable = ctxCancellable\<rparr>"

definition NewWorkerPool :: "int \<Rightarrow> nat" where
  "NewWorkerPool concurrency = (if concurrency \<le> 0 then 1 else nat concurrency)"

definition ProcessItems_return ::
  "'b \<Rightarrow> nat \<Rightarrow> ('b \<times> string option) poolState \<Rightarrow> 'b list \<times> string option" where
  "ProcessItems_return zero n s =
     (if n = 0 then ([], None)
      else foldl (storeResult n) (replicate n zero, None) (resultChan s))"

section \<open>Notions used to state the properties of a run\<close>

text \<open>
  A pool in which the processing of no item panics; the counter events and the payload
  that the processing of an item produces; the work a state still has to do, which
  every step makes smaller.
\<close>

definition neverPanics :: "'r poolConfig \<Rightarrow> bool" where
  "neverPanics cfg = (\<forall>i. \<exists>x. outcome cfg i = Inr x)"

definition eventsOf :: "'r poolConfig \<Rightarrow> nat \<Rightarrow> statEvent list" where
  "eventsOf cfg i = (case outcome cfg i of Inl p \<Rightarrow> [] | Inr (evs, r) \<Rightarrow> evs)"

definition payloadOf :: "'r poolConfig \<Rightarrow> nat \<Rightarrow> 'r option" where
  "payloadOf cfg i = (case outcome cfg i of Inl p \<Rightarrow> None | Inr (evs, r) \<Rightarrow> Some r)"

definition workLeft :: "'r poolConfig \<Rightarrow> 'r poolState \<Rightarrow> nat" where
  "workLeft cfg s =
     sum_list (map (\<lambda>i. length (eventsOf cfg i) + 2) (pending s))
     + sum_mset (image_mset (\<lambda>(i, evs, r). length evs + 1) (busy s))"

text \<open>
  The finding a worker starts from (the enriched one, or the bare one when enrichment
  failed), the finding it sends for a result, and the counter events it performs.
\<close>

definition baseFinding :: "enricherEnv \<Rightarrow> CodeQLResult \<Rightarrow> Finding" where
  "baseFinding e result =
     (case enrichWithSourceCode e result of
        Inl err \<Rightarrow> \<lparr>CodeQLResult = result, SourceCode = emptySourceCode, CallValidation = None\<rparr>
      | Inr f \<Rightarrow> f)"

text \<open>
  The specification's filter, in its words: a finding passes when validation is off (or
  there is no call graph), or when the reachability result is valid and, for a depth
  budget that is not negative, its maximum depth is within the budget.
\<close>

definition passesFilter ::
  "shortestPathFn \<Rightarrow> CallGraph option \<Rightarrow> bool \<Rightarrow> int \<Rightarrow> CodeQLResult \<Rightarrow> bool" where
  "passesFilter sp callGraph validateCalls callDepth result =
     (case callGraph of
        None \<Rightarrow> True
      | Some cg \<Rightarrow>
          \<not> validateCalls \<or>
          (case ValidateCallRelationship sp cg (FreeFunctionName result) (UseFunctionName result)
                  (if callDepth < 0 then 10 else callDepth) of
             Inl p \<Rightarrow> False
           | Inr validation \<Rightarrow>
               IsValid validation \<and> \<not> (callDepth \<ge> 0 \<and> MaxDepth validation > callDepth)))"

definition sentFinding ::
  "enricherEnv \<Rightarrow> shortestPathFn \<Rightarrow> CallGraph option \<Rightarrow> bool \<Rightarrow> int \<Rightarrow> CodeQLResult
     \<Rightarrow> Finding option" where
  "sentFinding e sp callGraph validateCalls callDepth result =
     (case processItem e sp callGraph validateCalls callDepth result of
        Inl p \<Rightarrow> None
      | Inr (evs, f) \<Rightarrow> f)"

definition eventsFor ::
  "shortestPathFn \<Rightarrow> CallGraph option \<Rightarrow> bool \<Rightarrow> int \<Rightarrow> CodeQLResult \<Rightarrow> statEvent list" where
  "eventsFor sp callGraph validateCalls callDepth result =
     (if validateCalls \<and> callGraph \<noteq> None
      then (if passesFilter sp callGraph validateCalls callDepth result
            then [IncTotal, IncValid] else [IncTotal, IncInvalid])
      else [])"

text \<open>The first error among results in their order of arrival.\<close>

fun firstError :: "(nat \<times> 'b \<times> string option) list \<Rightarrow> string option" where
  "firstError [] = None"
| "firstError ((index, data, err) # rs) = (if err \<noteq> None then err else firstError rs)"

text \<open>
  The analysis state of the loop invariant: either nothing was found and nothing was
  stored, or a relationship of one of the first three kinds was found and exactly one
  chain stored; no common caller is ever stored.
\<close>

definition analyzer_inv :: "reachabilityAnalyzer \<Rightarrow> bool" where
  "analyzer_inv ra =
     (commonCallers ra = [] \<and>
      (if foundRelationship ra
       then (\<exists>c. allPaths ra = [c]) \<and>
            relationshipType ra \<in> {SameFunction, ForwardReachable, BackwardReachable}
       else allPaths ra = [] \<and> relationshipType ra = NoRelationship))"

text \<open>The depth of a chain: its number of calls.\<close>

definition depthOf :: "string list \<Rightarrow> int" where
  "depthOf path = int (length path) - 1"

section \<open>Concrete runs\<close>

text \<open>
  An environment in which every lookup succeeds, and one in which the parser finds no
  function; three candidate findings over the chain of eight functions.
\<close>

definition demoEnv :: enricherEnv where
  "demoEnv =
     \<lparr>sourceDir = ''src'', NumCPU = 4,
      filepath_Join = (\<lambda>dir file. dir @ ''/'' @ file),
      FindFunctionByID = (\<lambda>dir fid. Inr (''// definition of '' @ fid)),
      getLineFromFile = (\<lambda>path line. Inr (''line '' @ fmt_d line @ '' of '' @ path)),
      findFunctionByName =
        (\<lambda>name. Inr \<lparr>DefinitionWithLineNumbers = ''// definition of '' @ name,
                        Snippet = []\<rparr>)\<rparr>"

definition failEnv :: enricherEnv where
  "failEnv = demoEnv\<lparr>FindFunctionByID := (\<lambda>dir fid. Inl (''function not found: '' @ fid))\<rparr>"

definition demoResult :: "string \<Rightarrow> int \<Rightarrow> string \<Rightarrow> int \<Rightarrow> CodeQLResult" where
  "demoResult freeName freeDef useName useDef =
     \<lparr>ObjName = ''buf'',
      FreeFunctionName = freeName, FreeFunctionFile = ''chain.c'',
      FreeFunctionDefLine = freeDef, FreeLine = freeDef + 2,
      UseFunctionName = useName, UseFunctionFile = ''chain.c'',
      UseFunctionDefLine = useDef, UseLine = useDef + 3\<rparr>"

definition demoResults :: "CodeQLResult list" where
  "demoResults =
     [demoResult ''f0'' 1 ''f2'' 21, demoResult ''f0'' 1 ''f7'' 71, demoResult ''f6'' 61 ''f5'' 51]"

text \<open>
  A run of the enrichment pool with two workers, validation on and a depth budget of 3,
  in which the second finding is finished first: the state when the result channel is
  closed.
\<close>

definition demoPool :: "Finding option poolConfig" where
  "demoPool =
     enrichPool demoEnv refShortestPath demoResults (Some (BuildCallGraph chain_registry))
       True 3 2"

definition demoSent :: "nat \<Rightarrow> Finding option" where
  "demoSent i =
     sentFinding demoEnv refShortestPath (Some (BuildCallGraph chain_registry)) True 3
       (demoResults ! i)"

definition demoFinal :: "Finding option poolState" where
  "demoFinal =
     \<lparr>pending = [], busy = {#},
      resultChan = [(1, demoSent 1), (0, demoSent 0), (2, demoSent 2)],
      trace = [IncTotal, IncTotal, IncInvalid, IncTotal, IncValid, IncValid],
      live = 2, crashed = False\<rparr>"

text \<open>A run of the enrichment pool on one finding whose enrichment fails, without
  validation.\<close>

definition failPool :: "Finding option poolConfig" where
  "failPool = enrichPool failEnv refShortestPath [demoResult ''f0'' 1 ''f2'' 21] None False (- 1) 1"

definition failFinal :: "Finding option poolState" where
  "failFinal =
     \<lparr>pending = [], busy = {#},
      resultChan = [(0, Some \<lparr>CodeQLResult = demoResult ''f0'' 1 ''f2'' 21,
                              SourceCode = emptySourceCode, CallValidation = None\<rparr>)],
      trace = [], live = 1, crashed = False\<rparr>"

text \<open>A run of the generic pool on three numbers with a processor that fails on the
  last two; the result of the third item arrives before that of the second.\<close>

definition demoItems :: "int list" where
  "demoItems = [10, 20, 30]"

definition demoProcessor :: "int \<Rightarrow> int \<times> string option" where
  "demoProcessor x = (2 * x, if 20 \<le> x then Some (''cannot process '' @ fmt_d x) else None)"

definition workPool :: "(int \<times> string option) poolConfig" where
  "workPool = processPool (NewWorkerPool 2) False demoItems demoProcessor"

definition workFinal :: "(int \<times> string option) poolState" where
  "workFinal =
     \<lparr>pending = [], busy = {#},
      resultChan = [(0, 20, None), (2, 60, Some ''cannot process 30''),
                    (1, 40, Some ''cannot process 20'')],
      trace = [], live = 2, crashed = False\<rparr>"


section \<open>The reference shortest path meets the contract\<close>

lemma is_walk_snoc:
  "is_walk gr (p @ [v]) \<longleftrightarrow> (p = [] \<or> (is_walk gr p \<and> (last p, v) \<in> set (edges gr)))"
  by (auto simp: is_walk_def successively_append_iff)

lemma successors_iff: "v \<in> set (successors gr u) \<longleftrightarrow> (u, v) \<in> set (edges gr)"
  by (force simp: successors_def)

lemma walksFrom_set:
  "set (walksFrom gr a n) = {p. is_walk gr p \<and> hd p = a \<and> length p = Suc n}"
proof (induction n)
  case 0
  show ?case
    by (auto simp: is_walk_def length_Suc_conv)
next
  case (Suc n)
  show ?case
  proof (rule set_eqI, rule iffI)
    fix q assume "q \<in> set (walksFrom gr a (Suc n))"
    then obtain p v where p: "p \<in> set (walksFrom gr a n)"
      and v: "v \<in> set (successors gr (last p))" and q: "q = p @ [v]"
      by auto
    from p Suc have pw: "is_walk gr p" "hd p = a" "length p = Suc n" by auto
    then have "p \<noteq> []" by auto
    with pw v q show "q \<in> {p. is_walk gr p \<and> hd p = a \<and> length p = Suc (Suc n)}"
      by (simp add: is_walk_snoc successors_iff)
  next
    fix q assume "q \<in> {p. is_walk gr p \<and> hd p = a \<and> length p = Suc (Suc n)}"
    then have qw: "is_walk gr q" "hd q = a" "length q = Suc (Suc n)" by auto
    then have "q \<noteq> []" by auto
    then obtain p v where q: "q = p @ [v]" by (metis append_butlast_last_id)
    with qw have pn: "p \<noteq> []" "length p = Suc n" by auto
    with qw q have "is_walk gr p" "(last p, v) \<in> set (edges gr)" "hd p = a"
      by (auto simp: is_walk_snoc)
    with pn Suc have "p \<in> set (walksFrom gr a n)" by auto
    moreover have "v \<in> set (successors gr (last p))"
      using \<open>(last p, v) \<in> set (edges gr)\<close> by (simp add: successors_iff)
    ultimately show "q \<in> set (walksFrom gr a (Suc n))"
      using q by auto
  qed
qed

lemma search_Some:
  "searchByLength gr a b fuel k = Some p \<Longrightarrow>
     walk_between gr a b p \<and> k < length p \<and>
     (\<forall>q. walk_between gr a b q \<and> k < length q \<longrightarrow> length p \<le> length q)"
proof (induction fuel arbitrary: k)
  case 0
  then show ?case by simp
next
  case (Suc fuel)
  show ?case
  proof (cases "find (\<lambda>p. last p = b) (walksFrom gr a k)")
    case None
    with Suc.prems have rec: "searchByLength gr a b fuel (Suc k) = Some p" by simp
    from Suc.IH[OF rec] have ih: "walk_between gr a b p" "Suc k < length p"
      "\<forall>q. walk_between gr a b q \<and> Suc k < length q \<longrightarrow> length p \<le> length q" by auto
    have none: "\<And>q. walk_between gr a b q \<Longrightarrow> length q \<noteq> Suc k"
    proof
      fix q assume "walk_between gr a b q" "length q = Suc k"
      then have "q \<in> set (walksFrom gr a k)" "last q = b"
        by (auto simp: walksFrom_set walk_between_def)
      with None show False by (auto simp: find_None_iff)
    qed
    show ?thesis
    proof (intro conjI allI impI)
      show "walk_between gr a b p" by fact
      show "k < length p" using ih(2) by simp
      fix q assume q: "walk_between gr a b q \<and> k < length q"
      with none[of q] have "Suc k < length q" by auto
      with q ih(3) show "length p \<le> length q" by blast
    qed
  next
    case (Some p')
    with Suc.prems have "p' = p" by simp
    with Some have "p \<in> set (walksFrom gr a k)" "last p = b"
      by (auto simp: find_Some_iff)
    then show ?thesis
      by (auto simp: walksFrom_set walk_between_def)
  qed
qed

lemma search_None:
  "searchByLength gr a b fuel k = None \<Longrightarrow> walk_between gr a b q \<Longrightarrow>
     \<not> (k < length q \<and> length q \<le> k + fuel)"
proof (induction fuel arbitrary: k)
  case 0
  then show ?case by simp
next
  case (Suc fuel)
  from Suc.prems(1) have f: "find (\<lambda>p. last p = b) (walksFrom gr a k) = None"
    and rec: "searchByLength gr a b fuel (Suc k) = None"
    by (auto split: option.splits)
  have "length q \<noteq> Suc k"
  proof
    assume "length q = Suc k"
    with Suc.prems(2) have "q \<in> set (walksFrom gr a k)" "last q = b"
      by (auto simp: walksFrom_set walk_between_def)
    with f show False by (auto simp: find_None_iff)
  qed
  moreover from Suc.IH[OF rec Suc.prems(2)]
  have "\<not> (Suc k < length q \<and> length q \<le> Suc k + fuel)" .
  ultimately show ?case by auto
qed


lemma walk_tl_targets: "is_walk gr p \<Longrightarrow> set (tl p) \<subseteq> snd ` set (edges gr)"
proof (induction p rule: induct_list012)
  case 1
  then show ?case by simp
next
  case (2 x)
  then show ?case by simp
next
  case (3 x y zs)
  from "3.prems" have e: "(x, y) \<in> set (edges gr)" and w: "is_walk gr (y # zs)"
    by (auto simp: is_walk_def)
  from e have "snd (x, y) \<in> snd ` set (edges gr)" by (rule imageI)
  moreover from "3.IH"(2)[OF w] have "set zs \<subseteq> snd ` set (edges gr)" by simp
  ultimately show ?case by simp
qed

lemma walk_cut_cycle:
  assumes "walk_between gr a b (xs @ [y] @ ys @ [y] @ zs)"
  shows "walk_between gr a b (xs @ [y] @ zs)"
proof -
  from assms have w: "successively (\<lambda>u v. (u, v) \<in> set (edges gr)) (xs @ [y] @ ys @ [y] @ zs)"
    and h: "hd (xs @ [y] @ ys @ [y] @ zs) = a" and l: "last (xs @ [y] @ ys @ [y] @ zs) = b"
    by (auto simp: walk_between_def is_walk_def)
  from w have w1: "successively (\<lambda>u v. (u, v) \<in> set (edges gr)) (xs @ [y])"
    and w2: "successively (\<lambda>u v. (u, v) \<in> set (edges gr)) ([y] @ zs)"
    by (simp_all add: successively_append_iff successively_Cons)
  have "successively (\<lambda>u v. (u, v) \<in> set (edges gr)) ((xs @ [y]) @ zs)"
    using w1 w2 by (cases zs) (auto simp: successively_append_iff successively_Cons)
  moreover have "hd (xs @ [y] @ zs) = a" using h by (cases xs) auto
  moreover have "last (xs @ [y] @ zs) = b" using l by (cases zs) auto
  ultimately show ?thesis by (simp add: walk_between_def is_walk_def)
qed

lemma walk_distinct:
  "walk_between gr a b p \<Longrightarrow> \<exists>q. walk_between gr a b q \<and> distinct q"
proof (induction p rule: length_induct)
  case (1 p)
  note IH = "1.IH" and w = "1.prems"
  show ?case
  proof (cases "distinct p")
    case True
    with w show ?thesis by blast
  next
    case False
    then obtain xs ys zs y where p: "p = xs @ [y] @ ys @ [y] @ zs"
      using not_distinct_decomp by blast
    have c: "walk_between gr a b (xs @ [y] @ zs)"
      using w unfolding p by (rule walk_cut_cycle)
    have "length (xs @ [y] @ zs) < length p" using p by simp
    with IH c show ?thesis by blast
  qed
qed

lemma distinct_walk_length:
  assumes "is_walk gr q" "distinct q"
  shows "length q \<le> Suc (length (edges gr))"
proof -
  from assms have "q \<noteq> []" by (simp add: is_walk_def)
  then have "length q = Suc (length (tl q))" by (cases q) auto
  moreover have "distinct (tl q)" using assms(2) by (simp add: distinct_tl)
  then have "length (tl q) = card (set (tl q))" by (simp add: distinct_card)
  moreover have "card (set (tl q)) \<le> card (snd ` set (edges gr))"
    using walk_tl_targets[OF assms(1)] by (simp add: card_mono)
  moreover have "card (snd ` set (edges gr)) \<le> card (set (edges gr))"
    by (simp add: card_image_le)
  moreover have "card (set (edges gr)) \<le> length (edges gr)"
    by (rule card_length)
  ultimately show ?thesis by linarith
qed

lemma refShortestPath_contract: "shortestPathContract refShortestPath gr"
  unfolding shortestPathContract_def
proof (intro allI)
  fix a b
  show "case refShortestPath gr a b of
          None \<Rightarrow> \<forall>p. \<not> walk_between gr a b p
        | Some p \<Rightarrow> walk_between gr a b p \<and>
                    (\<forall>q. walk_between gr a b q \<longrightarrow> length p \<le> length q)"
  proof (cases "refShortestPath gr a b")
    case None
    have "\<not> walk_between gr a b p" for p
    proof
      assume "walk_between gr a b p"
      then obtain q where q: "walk_between gr a b q" "distinct q"
        using walk_distinct by blast
      then have "length q \<le> Suc (length (edges gr))" "0 < length q"
        using distinct_walk_length by (auto simp: walk_between_def is_walk_def)
      with search_None[of gr a b "Suc (length (edges gr))" 0 q] None q(1)
      show False by (simp add: refShortestPath_def)
    qed
    with None show ?thesis by simp
  next
    case (Some p)
    then have s: "searchByLength gr a b (Suc (length (edges gr))) 0 = Some p"
      by (simp add: refShortestPath_def)
    have "0 < length q" if "walk_between gr a b q" for q
      using that by (simp add: walk_between_def is_walk_def)
    with search_Some[OF s] Some show ?thesis by auto
  qed
qed

section \<open>The analyzer's loop invariant\<close>

lemma findPaths_cases:
  "findPaths sp ra a b = [] \<or> (\<exists>c. findPaths sp ra a b = [c])"
  by (simp add: findPaths_def Let_def split: option.splits)

lemma analyzePair_inv:
  assumes "analyzer_inv ra" "\<not> foundRelationship ra"
  shows "analyzer_inv (analyzePair sp ra s t)"
  using assms findPaths_cases[of sp ra s t] findPaths_cases[of sp ra t s]
  by (auto simp: analyzer_inv_def analyzePair_def findCommonAncestors_def)

lemma targetLoop_inv:
  "analyzer_inv ra \<Longrightarrow> \<not> foundRelationship ra \<Longrightarrow> analyzer_inv (targetLoop sp ra s ts)"
  by (induction ts arbitrary: ra) (auto simp: Let_def analyzePair_inv)

lemma sourceLoop_inv:
  "analyzer_inv ra \<Longrightarrow> \<not> foundRelationship ra \<Longrightarrow> analyzer_inv (sourceLoop sp ra ss ts)"
  by (induction ss arbitrary: ra) (auto simp: Let_def targetLoop_inv)

lemma runAnalyzer_inv: "analyzer_inv (runAnalyzer sp cg s t d)"
  unfolding runAnalyzer_def
  by (rule sourceLoop_inv) (simp_all add: analyzer_inv_def newAnalyzer_def)

lemma calculatePathDepths_single:
  "calculatePathDepths [c] = Inr (int (length c) - 1, int (length c) - 1)"
  by (simp add: calculatePathDepths_def Let_def)

lemma deduplicatePaths_single: "deduplicatePaths [c] = [c]"
  by (simp add: deduplicatePaths_def)

lemma buildResult_inv:
  assumes "analyzer_inv ra"
  shows "\<exists>r. buildResult ra = Inr r \<and> CommonCallers r = [] \<and>
           Reason r \<noteq> ''Functions have common caller'' \<and>
           (if IsValid r
            then \<exists>c. allPaths ra = [c] \<and> CallChains r = [c] \<and>
                     MinDepth r = int (length c) - 1 \<and> MaxDepth r = int (length c) - 1
            else CallChains r = [])"
proof (cases "foundRelationship ra")
  case False
  then show ?thesis by (simp add: buildResult_def)
next
  case True
  with assms obtain c where c: "allPaths ra = [c]" "commonCallers ra = []"
    and t: "relationshipType ra \<in> {SameFunction, ForwardReachable, BackwardReachable}"
    by (auto simp: analyzer_inv_def)
  from t have "fst (relationshipText ra) \<noteq> ''Functions have common caller''"
    by (auto simp: relationshipText_def)
  with True c show ?thesis
    by (cases "relationshipText ra")
       (simp add: buildResult_def calculatePathDepths_single deduplicatePaths_single)
qed

text \<open>The analysis never panics: the loop invariant keeps \<^verbatim>\<open>calculatePathDepths\<close> away
  from its indexing of a second path.\<close>

lemma AnalyzeReachability_total: "\<exists>r. AnalyzeReachability sp cg s t d = Inr r"
  using buildResult_inv[OF runAnalyzer_inv, of sp cg s t d]
  by (auto simp: AnalyzeReachability_def)

section \<open>Reading the name off an identifier\<close>

text \<open>
  An identifier built by the parser from a file path without a colon splits into the
  path, the line and the pieces of the name, so \<^verbatim>\<open>extractFunctionName\<close> returns the name
  (its part before the first colon, and C names have none). A colon in the path shifts
  the pieces.
\<close>

lemma strings_Split_nonempty: "strings_Split xs sep \<noteq> []"
  by (induction xs) (auto split: list.splits)

lemma strings_Split_prefix:
  "sep \<notin> set xs \<Longrightarrow> strings_Split (xs @ sep # ys) sep = xs # strings_Split ys sep"
  by (induction xs) (auto split: list.splits)

lemma strings_Split_none: "sep \<notin> set xs \<Longrightarrow> strings_Split xs sep = [xs]"
  by (induction xs) (auto split: list.splits)

lemma digitsOf_no_colon: "CHR 0x3A \<notin> set (digitsOf n)"
proof (induction n rule: digitsOf.induct)
  case (1 n)
  have d: "char_of (48 + k) \<noteq> CHR 0x3A" if "k < 10" for k :: nat
  proof
    assume "char_of (48 + k) = CHR 0x3A"
    then have "(of_char (char_of (48 + k)) :: nat) = of_char (CHR 0x3A)" by (rule arg_cong)
    then have "(48 + k) mod 256 = 58" by simp
    with that show False by simp
  qed
  show ?case
  proof (cases "n < 10")
    case True
    then show ?thesis using d[of n] by (simp add: digitsOf.simps[of n])
  next
    case False
    with 1 have "CHR 0x3A \<notin> set (digitsOf (n div 10))" by simp
    moreover have "char_of (48 + n mod 10) \<noteq> CHR 0x3A" by (rule d) simp
    ultimately show ?thesis using False by (simp add: digitsOf.simps[of n])
  qed
qed

lemma fmt_d_no_colon: "CHR 0x3A \<notin> set (fmt_d i)"
  using digitsOf_no_colon by (simp add: fmt_d_def)

lemma extractFunctionName_functionID:
  assumes "CHR 0x3A \<notin> set filename"
  shows "extractFunctionName (functionID filename startLine functionName)
           = hd (strings_Split functionName (CHR 0x3A))"
proof -
  have "strings_Split (functionID filename startLine functionName) (CHR 0x3A)
          = filename # fmt_d startLine # strings_Split functionName (CHR 0x3A)"
    unfolding functionID_def
    using strings_Split_prefix[OF assms] strings_Split_prefix[OF fmt_d_no_colon]
    by simp
  moreover obtain p ps where "strings_Split functionName (CHR 0x3A) = p # ps"
    using strings_Split_nonempty by (cases "strings_Split functionName (CHR 0x3A)") auto
  ultimately show ?thesis by (simp add: extractFunctionName_def)
qed

lemma extractFunctionName_wellformed:
  assumes "CHR 0x3A \<notin> set filename" "CHR 0x3A \<notin> set functionName"
  shows "extractFunctionName (functionID filename startLine functionName) = functionName"
  using extractFunctionName_functionID[OF assms(1)] strings_Split_none[OF assms(2)]
  by simp

section \<open>All path depths\<close>

text \<open>
  \<^verbatim>\<open>calculatePathDepths\<close> on two or more non-empty chains: the minimum is the least chain
  depth; the maximum is the greatest among the chain depths and the sums of the first
  chain's depth with the depth of each later chain that ends at another function.
\<close>

lemma depthLoop_fold:
  "depthLoop (mn, mx) paths =
     (fold min (map depthOf paths) mn, fold max (map depthOf paths) mx)"
proof (induction paths arbitrary: mn mx)
  case Nil
  show ?case by simp
next
  case (Cons p ps)
  have "(if depthOf p < mn then depthOf p else mn) = min (depthOf p) mn"
       "(if depthOf p > mx then depthOf p else mx) = max (depthOf p) mx"
    by (simp_all add: min_def max_def)
  then show ?case
    by (simp add: Cons.IH Let_def depthOf_def[symmetric])
qed

lemma sumLoop_fold:
  assumes "[] \<notin> set paths"
  shows "sumLoop l d0 paths mx =
           Inr (fold max (map (\<lambda>q. d0 + depthOf q) (filter (\<lambda>q. last q \<noteq> l) paths)) mx)"
  using assms
proof (induction paths arbitrary: mx)
  case Nil
  show ?case by simp
next
  case (Cons p ps)
  then have ne: "p \<noteq> []" and rest: "[] \<notin> set ps" by auto
  have m: "(if d0 + depthOf p > mx then d0 + depthOf p else mx) = max (d0 + depthOf p) mx"
    by (simp add: max_def)
  note IH = Cons.IH[OF rest]
  show ?case
  proof (cases "l = last p")
    case True
    from ne show ?thesis unfolding True by (simp add: IH[unfolded True])
  next
    case False
    with ne m show ?thesis by (simp add: IH Let_def depthOf_def[symmetric])
  qed
qed

lemma calculatePathDepths_general:
  assumes "[] \<notin> set (p # rest)" "rest \<noteq> []"
  shows "calculatePathDepths (p # rest) =
           Inr (Min (set (map depthOf (p # rest))),
                Max (set (map depthOf (p # rest) @
                          map (\<lambda>q. depthOf p + depthOf q)
                              (filter (\<lambda>q. last q \<noteq> last p) rest))))"
proof -
  from assms have ne: "p \<noteq> []" and r: "[] \<notin> set rest" by auto
  from assms(2) have len: "2 \<le> length (p # rest)" by (cases rest) simp_all
  have mn: "fold min (map depthOf rest) (depthOf p) = Min (set (map depthOf (p # rest)))"
    by (simp only: list.map Min.set_eq_fold)
  have "fold max (map (\<lambda>q. depthOf p + depthOf q) (filter (\<lambda>q. last q \<noteq> last p) rest))
          (fold max (map depthOf rest) (depthOf p))
        = fold max (map depthOf rest @
                    map (\<lambda>q. depthOf p + depthOf q) (filter (\<lambda>q. last q \<noteq> last p) rest))
            (depthOf p)"
    by simp
  also have "\<dots> = Max (set (depthOf p # map depthOf rest @
                    map (\<lambda>q. depthOf p + depthOf q) (filter (\<lambda>q. last q \<noteq> last p) rest)))"
    by (simp only: Max.set_eq_fold)
  finally have mx: "fold max (map (\<lambda>q. depthOf p + depthOf q)
                               (filter (\<lambda>q. last q \<noteq> last p) rest))
          (fold max (map depthOf rest) (depthOf p))
        = Max (set (map depthOf (p # rest) @
                    map (\<lambda>q. depthOf p + depthOf q) (filter (\<lambda>q. last q \<noteq> last p) rest)))"
    by simp
  have "calculatePathDepths (p # rest) =
          Inr (fold min (map depthOf rest) (depthOf p),
               fold max (map (\<lambda>q. depthOf p + depthOf q)
                             (filter (\<lambda>q. last q \<noteq> last p) rest))
                 (fold max (map depthOf rest) (depthOf p)))"
    using ne len
    by (simp add: calculatePathDepths_def Let_def depthOf_def[symmetric] depthLoop_fold
        sumLoop_fold[OF r])
  then show ?thesis by (simp only: mn mx)
qed

section \<open>Consequences of the shortest-path contract\<close>

text \<open>The depth that \<^verbatim>\<open>findPaths\<close> allows is the smaller of \<open>maxDepth\<close> and five.\<close>

lemma findPaths_effective_cap:
  "findPaths sp ra a b =
     (case sp (ra_graph ra) a b of
        None \<Rightarrow> []
      | Some p \<Rightarrow> if int (length p) - 1 \<le> min (ra_maxDepth ra) 5
                  then [map extractFunctionName p] else [])"
  by (auto simp: findPaths_def Let_def split: option.splits)

lemma contract_Some:
  assumes "shortestPathContract sp gr" "sp gr a b = Some p"
  shows "walk_between gr a b p" and "\<And>q. walk_between gr a b q \<Longrightarrow> length p \<le> length q"
proof -
  from assms(1) have "case sp gr a b of
              None \<Rightarrow> (\<forall>p. \<not> walk_between gr a b p)
            | Some p \<Rightarrow> walk_between gr a b p \<and>
                        (\<forall>q. walk_between gr a b q \<longrightarrow> length p \<le> length q)"
    unfolding shortestPathContract_def by blast
  with assms(2) have "walk_between gr a b p \<and>
                        (\<forall>q. walk_between gr a b q \<longrightarrow> length p \<le> length q)"
    by simp
  then show "walk_between gr a b p" and "\<And>q. walk_between gr a b q \<Longrightarrow> length p \<le> length q"
    by blast+
qed

lemma contract_None:
  assumes "shortestPathContract sp gr" "sp gr a b = None"
  shows "\<not> walk_between gr a b p"
proof -
  from assms(1) have "case sp gr a b of
              None \<Rightarrow> (\<forall>p. \<not> walk_between gr a b p)
            | Some p \<Rightarrow> walk_between gr a b p \<and>
                        (\<forall>q. walk_between gr a b q \<longrightarrow> length p \<le> length q)"
    unfolding shortestPathContract_def by blast
  with assms(2) show ?thesis by simp
qed

lemma findPaths_far:
  assumes c: "shortestPathContract sp (ra_graph ra)"
    and far: "\<forall>p. walk_between (ra_graph ra) a b p \<longrightarrow> 5 < int (length p) - 1"
  shows "findPaths sp ra a b = []"
proof (cases "sp (ra_graph ra) a b")
  case None
  then show ?thesis by (simp add: findPaths_def)
next
  case (Some p)
  from contract_Some(1)[OF c Some] far have "5 < int (length p) - 1" by blast
  with Some show ?thesis by (simp add: findPaths_def)
qed

lemma direct_edge_shortest:
  assumes c: "shortestPathContract sp gr" and e: "(a, b) \<in> set (edges gr)" and ne: "a \<noteq> b"
  shows "sp gr a b = Some [a, b]"
proof -
  have w: "walk_between gr a b [a, b]"
    using e by (simp add: walk_between_def is_walk_def)
  show ?thesis
  proof (cases "sp gr a b")
    case None
    with contract_None[OF c None] w show ?thesis by blast
  next
    case (Some p)
    from contract_Some[OF c Some] w have p: "walk_between gr a b p" "length p \<le> 2"
      by fastforce+
    then have "p \<noteq> []" "hd p = a" "last p = b"
      by (auto simp: walk_between_def is_walk_def)
    with p(2) ne have "p = [a, b]"
      by (cases p; cases "tl p") auto
    with Some show ?thesis by simp
  qed
qed

lemma analyzePair_far:
  assumes "shortestPathContract sp (ra_graph ra)" "a \<noteq> b"
    and "\<forall>p. walk_between (ra_graph ra) a b p \<longrightarrow> 5 < int (length p) - 1"
    and "\<forall>p. walk_between (ra_graph ra) b a p \<longrightarrow> 5 < int (length p) - 1"
  shows "analyzePair sp ra a b = ra"
  using assms(2) findPaths_far[OF assms(1,3)] findPaths_far[OF assms(1,4)]
  by (simp add: analyzePair_def findCommonAncestors_def)

lemma targetLoop_unchanged:
  "\<not> foundRelationship ra \<Longrightarrow> (\<forall>t \<in> set ts. analyzePair sp ra s t = ra) \<Longrightarrow>
   targetLoop sp ra s ts = ra"
  by (induction ts) (simp_all add: Let_def)

lemma sourceLoop_unchanged:
  "\<not> foundRelationship ra \<Longrightarrow> (\<forall>s \<in> set ss. \<forall>t \<in> set ts. analyzePair sp ra s t = ra) \<Longrightarrow>
   sourceLoop sp ra ss ts = ra"
  by (induction ss) (simp_all add: Let_def targetLoop_unchanged)

text \<open>
  When the identifiers of the two names are pairwise distinct and every walk between
  them, in either direction, has more than five edges, the analysis reports no
  relationship, for every \<open>maxDepth\<close>.
\<close>

lemma no_relationship_beyond_cap:
  assumes c: "shortestPathContract sp (cg_g cg)"
    and ids: "functionIDs cg A \<noteq> []" "functionIDs cg B \<noteq> []"
    and far: "\<forall>a \<in> set (functionIDs cg A). \<forall>b \<in> set (functionIDs cg B).
                a \<noteq> b \<and>
                (\<forall>p. walk_between (cg_g cg) a b p \<longrightarrow> 5 < int (length p) - 1) \<and>
                (\<forall>p. walk_between (cg_g cg) b a p \<longrightarrow> 5 < int (length p) - 1)"
  shows "AnalyzeReachability sp cg A B d =
           Inr \<lparr>IsValid = False,
                Reason = ''No reachability relationship found between functions'',
                CallChains = [], CommonCallers = [],
                Details = ''No direct calls, reverse calls, or common callers found between ''
                          @ A @ '' and '' @ B @ '' within depth '' @ fmt_d d,
                MinDepth = 0, MaxDepth = 0\<rparr>"
proof -
  let ?ra = "newAnalyzer cg A B d"
  have g: "ra_graph ?ra = cg_g cg" and nf: "\<not> foundRelationship ?ra"
    by (simp_all add: newAnalyzer_def)
  have "\<forall>a \<in> set (functionIDs cg A). \<forall>b \<in> set (functionIDs cg B). analyzePair sp ?ra a b = ?ra"
  proof (intro ballI)
    fix a b assume "a \<in> set (functionIDs cg A)" "b \<in> set (functionIDs cg B)"
    with far have "a \<noteq> b"
      "\<forall>p. walk_between (ra_graph ?ra) a b p \<longrightarrow> 5 < int (length p) - 1"
      "\<forall>p. walk_between (ra_graph ?ra) b a p \<longrightarrow> 5 < int (length p) - 1"
      unfolding g by blast+
    with c show "analyzePair sp ?ra a b = ?ra"
      unfolding g[symmetric] by (intro analyzePair_far)
  qed
  with nf have "runAnalyzer sp cg A B d = ?ra"
    unfolding runAnalyzer_def by (rule sourceLoop_unchanged)
  with ids show ?thesis
    by (simp add: AnalyzeReachability_def buildResult_def newAnalyzer_def)
qed

lemma chain_shortest:
  "refShortestPath (cg_g (BuildCallGraph chain_registry)) ''chain.c:1:f0'' ''chain.c:71:f7'' =
     Some [''chain.c:1:f0'', ''chain.c:11:f1'', ''chain.c:21:f2'', ''chain.c:31:f3'',
           ''chain.c:41:f4'', ''chain.c:51:f5'', ''chain.c:61:f6'', ''chain.c:71:f7'']"
  by code_simp

section \<open>Claims about the reachability analysis\<close>

text \<open>
  Claim C1. Path existence is decided by the shortest path, cut at five edges whatever
  \<open>maxDepth\<close> the caller gave: when every walk from \<open>a\<close> to \<open>b\<close> has more than five
  edges, \<^verbatim>\<open>findPaths\<close> reports no path from \<open>a\<close> to \<open>b\<close>, for every analyzer state and so
  for every \<open>maxDepth\<close>; when the same holds from \<open>b\<close> to \<open>a\<close> and the two identifiers
  differ, the analysis of the pair leaves the analyzer as it was, with no relationship
  found. The library's shortest path is any function that meets its contract.
\<close>

theorem search_cap_hides_long_paths:
  assumes c: "shortestPathContract sp (ra_graph ra)"
    and far: "\<forall>p. walk_between (ra_graph ra) a b p \<longrightarrow> 5 < int (length p) - 1"
  shows "findPaths sp ra a b = [] \<and>
         (a \<noteq> b \<and> (\<forall>p. walk_between (ra_graph ra) b a p \<longrightarrow> 5 < int (length p) - 1)
            \<longrightarrow> analyzePair sp ra a b = ra)"
proof (intro conjI impI)
  show f: "findPaths sp ra a b = []" using c far by (rule findPaths_far)
  assume "a \<noteq> b \<and> (\<forall>p. walk_between (ra_graph ra) b a p \<longrightarrow> 5 < int (length p) - 1)"
  then have ne: "a \<noteq> b" and "findPaths sp ra b a = []"
    using c findPaths_far by blast+
  with f show "analyzePair sp ra a b = ra"
    by (simp add: analyzePair_def findCommonAncestors_def)
qed

text \<open>
  The example of the specification: in the chain \<open>f0 \<rightarrow> f1 \<rightarrow> ... \<rightarrow> f7\<close> the shortest path
  from \<open>f0\<close> to \<open>f7\<close> has seven edges, and with \<open>maxDepth = 10\<close> no path is reported.
\<close>

theorem search_cap_hides_long_paths_witness:
  "refShortestPath (cg_g (BuildCallGraph chain_registry)) ''chain.c:1:f0'' ''chain.c:71:f7'' =
     Some [''chain.c:1:f0'', ''chain.c:11:f1'', ''chain.c:21:f2'', ''chain.c:31:f3'',
           ''chain.c:41:f4'', ''chain.c:51:f5'', ''chain.c:61:f6'', ''chain.c:71:f7''] \<and>
   findPaths refShortestPath (newAnalyzer (BuildCallGraph chain_registry) ''f0'' ''f7'' 10)
     ''chain.c:1:f0'' ''chain.c:71:f7'' = [] \<and>
   AnalyzeReachability refShortestPath (BuildCallGraph chain_registry) ''f0'' ''f7'' 10 =
     Inr \<lparr>IsValid = False,
          Reason = ''No reachability relationship found between functions'',
          CallChains = [], CommonCallers = [],
          Details = ''No direct calls, reverse calls, or common callers found between f0 and f7 within depth 10'',
          MinDepth = 0, MaxDepth = 0\<rparr>"
proof -
  let ?ra = "newAnalyzer (BuildCallGraph chain_registry) ''f0'' ''f7'' 10"
  have g: "ra_graph ?ra = cg_g (BuildCallGraph chain_registry)"
    by (simp add: newAnalyzer_def)
  have c: "shortestPathContract refShortestPath (ra_graph ?ra)"
    by (rule refShortestPath_contract)
  have far: "\<forall>p. walk_between (ra_graph ?ra) ''chain.c:1:f0'' ''chain.c:71:f7'' p
               \<longrightarrow> 5 < int (length p) - 1"
  proof (intro allI impI)
    fix p assume "walk_between (ra_graph ?ra) ''chain.c:1:f0'' ''chain.c:71:f7'' p"
    with contract_Some(2)[OF c, of "''chain.c:1:f0''" "''chain.c:71:f7''"] chain_shortest g
    have "8 \<le> length p" by fastforce
    then show "5 < int (length p) - 1" by simp
  qed
  from search_cap_hides_long_paths[OF c far]
  have "findPaths refShortestPath ?ra ''chain.c:1:f0'' ''chain.c:71:f7'' = []" by blast
  moreover
  have "AnalyzeReachability refShortestPath (BuildCallGraph chain_registry) ''f0'' ''f7'' 10 =
     Inr \<lparr>IsValid = False,
          Reason = ''No reachability relationship found between functions'',
          CallChains = [], CommonCallers = [],
          Details = ''No direct calls, reverse calls, or common callers found between f0 and f7 within depth 10'',
          MinDepth = 0, MaxDepth = 0\<rparr>"
    by code_simp
  ultimately show ?thesis using chain_shortest by simp
qed

text \<open>
  Claim C3. The common-ancestor case is switched off: \<^verbatim>\<open>findCommonAncestors\<close> returns
  no caller, so for every query the analyzer ends with one of the kinds no relationship,
  same function, forward or backward reachable and with no common caller stored, and the
  result (there always is one) has an empty \<open>CommonCallers\<close> and never the reason of
  the common-caller case.
\<close>

theorem common_ancestor_disabled:
  "findCommonAncestors ra a b = [] \<and>
   relationshipType (runAnalyzer sp cg s t d)
     \<in> {NoRelationship, SameFunction, ForwardReachable, BackwardReachable} \<and>
   commonCallers (runAnalyzer sp cg s t d) = [] \<and>
   (\<exists>r. AnalyzeReachability sp cg s t d = Inr r \<and> CommonCallers r = [] \<and>
        Reason r \<noteq> ''Functions have common caller'')"
proof -
  have inv: "analyzer_inv (runAnalyzer sp cg s t d)" by (rule runAnalyzer_inv)
  then have "relationshipType (runAnalyzer sp cg s t d)
     \<in> {NoRelationship, SameFunction, ForwardReachable, BackwardReachable}"
    and "commonCallers (runAnalyzer sp cg s t d) = []"
    by (auto simp: analyzer_inv_def split: if_splits)
  moreover from buildResult_inv[OF inv]
  have "\<exists>r. AnalyzeReachability sp cg s t d = Inr r \<and> CommonCallers r = [] \<and>
        Reason r \<noteq> ''Functions have common caller''"
    by (auto simp: AnalyzeReachability_def)
  ultimately show ?thesis by (simp add: findCommonAncestors_def)
qed

text \<open>Two functions whose only link is their common caller \<open>main\<close> get the negative
  result.\<close>

theorem common_ancestor_disabled_witness:
  "relationshipType
     (runAnalyzer refShortestPath (BuildCallGraph fork_registry) ''do_free'' ''do_use'' 10)
     = NoRelationship \<and>
   AnalyzeReachability refShortestPath (BuildCallGraph fork_registry) ''do_free'' ''do_use'' 10 =
     Inr \<lparr>IsValid = False,
          Reason = ''No reachability relationship found between functions'',
          CallChains = [], CommonCallers = [],
          Details = ''No direct calls, reverse calls, or common callers found between do_free and do_use within depth 10'',
          MinDepth = 0, MaxDepth = 0\<rparr>"
proof -
  let ?cg = "BuildCallGraph fork_registry"
  have nf: "\<not> foundRelationship (runAnalyzer refShortestPath ?cg ''do_free'' ''do_use'' 10)"
    by code_simp
  from common_ancestor_disabled[of _ _ _ refShortestPath ?cg "''do_free''" "''do_use''" 10]
  have "relationshipType (runAnalyzer refShortestPath ?cg ''do_free'' ''do_use'' 10)
     \<in> {NoRelationship, SameFunction, ForwardReachable, BackwardReachable}"
    by blast
  moreover have "analyzer_inv (runAnalyzer refShortestPath ?cg ''do_free'' ''do_use'' 10)"
    by (rule runAnalyzer_inv)
  ultimately have "relationshipType (runAnalyzer refShortestPath ?cg ''do_free'' ''do_use'' 10)
     = NoRelationship"
    using nf by (simp add: analyzer_inv_def)
  moreover
  have "AnalyzeReachability refShortestPath ?cg ''do_free'' ''do_use'' 10 =
     Inr \<lparr>IsValid = False,
          Reason = ''No reachability relationship found between functions'',
          CallChains = [], CommonCallers = [],
          Details = ''No direct calls, reverse calls, or common callers found between do_free and do_use within depth 10'',
          MinDepth = 0, MaxDepth = 0\<rparr>"
    by code_simp
  ultimately show ?thesis by simp
qed

text \<open>
  Claim C5. A name with no identifier in the name index gives a result, not a panic,
  with \<open>IsValid = False\<close> and a reason naming the side: the free (source) side when the
  source name is missing, whatever the target name is, and the use (target) side when
  only the target name is missing.
\<close>

theorem missing_function_not_found:
  "(functionIDs cg s = [] \<longrightarrow>
      AnalyzeReachability sp cg s t d =
        Inr \<lparr>IsValid = False, Reason = ''Free function not found in call graph'',
             CallChains = [], CommonCallers = [],
             Details = ''Function '' @ [CHR 0x27] @ s @ [CHR 0x27]
                       @ '' was not found in the parsed codebase'',
             MinDepth = 0, MaxDepth = 0\<rparr>) \<and>
   (functionIDs cg s \<noteq> [] \<and> functionIDs cg t = [] \<longrightarrow>
      AnalyzeReachability sp cg s t d =
        Inr \<lparr>IsValid = False, Reason = ''Use function not found in call graph'',
             CallChains = [], CommonCallers = [],
             Details = ''Function '' @ [CHR 0x27] @ t @ [CHR 0x27]
                       @ '' was not found in the parsed codebase'',
             MinDepth = 0, MaxDepth = 0\<rparr>)"
  by (simp add: AnalyzeReachability_def)

theorem missing_function_not_found_witness:
  "cg_functions (BuildCallGraph chain_registry) ''absent'' = None \<and>
   cg_functions (BuildCallGraph chain_registry) ''f0'' = Some [''chain.c:1:f0''] \<and>
   AnalyzeReachability refShortestPath (BuildCallGraph chain_registry) ''absent'' ''f0'' 3 =
     Inr \<lparr>IsValid = False, Reason = ''Free function not found in call graph'',
          CallChains = [], CommonCallers = [],
          Details = ''Function '' @ [CHR 0x27] @ ''absent'' @ [CHR 0x27]
                    @ '' was not found in the parsed codebase'',
          MinDepth = 0, MaxDepth = 0\<rparr> \<and>
   AnalyzeReachability refShortestPath (BuildCallGraph chain_registry) ''f0'' ''absent'' 3 =
     Inr \<lparr>IsValid = False, Reason = ''Use function not found in call graph'',
          CallChains = [], CommonCallers = [],
          Details = ''Function '' @ [CHR 0x27] @ ''absent'' @ [CHR 0x27]
                    @ '' was not found in the parsed codebase'',
          MinDepth = 0, MaxDepth = 0\<rparr>"
proof -
  let ?cg = "BuildCallGraph chain_registry"
  have a: "cg_functions ?cg ''absent'' = None" by code_simp
  have b: "cg_functions ?cg ''f0'' = Some [''chain.c:1:f0'']" by code_simp
  from a b have ids: "functionIDs ?cg ''absent'' = []" "functionIDs ?cg ''f0'' \<noteq> []"
    by (simp_all add: functionIDs_def)
  from missing_function_not_found[of ?cg "''absent''" refShortestPath "''f0''" 3] ids
    missing_function_not_found[of ?cg "''f0''" refShortestPath "''absent''" 3] a b
  show ?thesis by simp
qed

text \<open>
  Claim C6. For the common-ancestor shape, two non-empty chains that end at different
  functions, the reported maximum depth is the sum of the two branch depths (each a
  chain length minus one), which is never below the larger of the two; the minimum is
  the smaller branch depth.
\<close>

theorem common_ancestor_depth_is_sum:
  assumes "p \<noteq> []" "q \<noteq> []" "last p \<noteq> last q"
  shows "calculatePathDepths [p, q] =
           Inr (min (int (length p) - 1) (int (length q) - 1),
                (int (length p) - 1) + (int (length q) - 1)) \<and>
         max (int (length p) - 1) (int (length q) - 1)
           \<le> (int (length p) - 1) + (int (length q) - 1)"
proof -
  define dp where "dp = int (length p) - 1"
  define dq where "dq = int (length q) - 1"
  have nn: "0 \<le> dp" "0 \<le> dq"
    using assms(1,2) by (simp_all add: dp_def dq_def)
  have "calculatePathDepths [p, q] =
          Inr (if dq < dp then dq else dp,
               if (if dq > dp then dq else dp) < dp + dq then dp + dq
               else (if dq > dp then dq else dp))"
    using assms by (simp add: calculatePathDepths_def Let_def dp_def dq_def)
  with nn have "calculatePathDepths [p, q] = Inr (min dp dq, dp + dq)"
    by (simp add: min_def)
  moreover have "max dp dq \<le> dp + dq" using nn by simp
  ultimately show ?thesis unfolding dp_def dq_def by (rule conjI)
qed

theorem common_ancestor_depth_is_sum_witness:
  "calculatePathDepths [[''main'', ''do_free''], [''main'', ''helper'', ''do_use'']] = Inr (1, 3)"
  using common_ancestor_depth_is_sum
          [of "[''main'', ''do_free'']" "[''main'', ''helper'', ''do_use'']"]
  by simp

text \<open>
  What the analysis returns for a name analysed against itself, and for a direct call
  between the first identifiers of two names: the chain holds what
  \<^verbatim>\<open>extractFunctionName\<close> reads off the identifiers.
\<close>

lemma same_function_result:
  assumes "functionIDs cg x = i # ids"
  shows "AnalyzeReachability sp cg x x d =
           Inr \<lparr>IsValid = True, Reason = ''Functions are the same'',
                CallChains = [[extractFunctionName i]], CommonCallers = [],
                Details = ''Both operations occur in the same function: '' @ x,
                MinDepth = 0, MaxDepth = 0\<rparr>"
  using assms
  by (simp add: AnalyzeReachability_def runAnalyzer_def newAnalyzer_def analyzePair_def
      buildResult_def relationshipText_def calculatePathDepths_single deduplicatePaths_single
      Let_def)

lemma direct_call_result:
  assumes c: "shortestPathContract sp (cg_g cg)"
    and ids: "functionIDs cg A = a # as" "functionIDs cg B = b # bs"
    and e: "(a, b) \<in> set (edges (cg_g cg))" and ne: "a \<noteq> b" and d: "1 \<le> d"
  shows "AnalyzeReachability sp cg A B d =
           Inr \<lparr>IsValid = True, Reason = ''Source function can reach target function'',
                CallChains = [[extractFunctionName a, extractFunctionName b]],
                CommonCallers = [],
                Details = ''Direct call: '' @ A @ '' calls '' @ B,
                MinDepth = 1, MaxDepth = 1\<rparr>"
proof -
  let ?ra = "newAnalyzer cg A B d"
  have "sp (cg_g cg) a b = Some [a, b]" using c e ne by (rule direct_edge_shortest)
  then have f: "findPaths sp ?ra a b = [[extractFunctionName a, extractFunctionName b]]"
    using d by (simp add: findPaths_def newAnalyzer_def)
  have "analyzePair sp ?ra a b =
          ?ra\<lparr>foundRelationship := True, relationshipType := ForwardReachable,
              allPaths := [[extractFunctionName a, extractFunctionName b]]\<rparr>"
    using ne f by (simp add: analyzePair_def) (simp add: newAnalyzer_def)
  then have "runAnalyzer sp cg A B d =
          ?ra\<lparr>foundRelationship := True, relationshipType := ForwardReachable,
              allPaths := [[extractFunctionName a, extractFunctionName b]]\<rparr>"
    using ids by (simp add: runAnalyzer_def Let_def)
  then have "buildResult (runAnalyzer sp cg A B d) =
           Inr \<lparr>IsValid = True, Reason = ''Source function can reach target function'',
                CallChains = [[extractFunctionName a, extractFunctionName b]],
                CommonCallers = [],
                Details = ''Direct call: '' @ A @ '' calls '' @ B,
                MinDepth = 1, MaxDepth = 1\<rparr>"
    by (simp add: buildResult_def relationshipText_def calculatePathDepths_single
        deduplicatePaths_single newAnalyzer_def)
  with ids show ?thesis by (simp add: AnalyzeReachability_def)
qed

text \<open>With parser-built identifiers whose file paths hold no colon the chains hold the
  names.\<close>

lemma same_function_named:
  assumes "functionIDs cg x = functionID filename startLine x # ids"
    and "CHR 0x3A \<notin> set filename" "CHR 0x3A \<notin> set x"
  shows "AnalyzeReachability sp cg x x d =
           Inr \<lparr>IsValid = True, Reason = ''Functions are the same'',
                CallChains = [[x]], CommonCallers = [],
                Details = ''Both operations occur in the same function: '' @ x,
                MinDepth = 0, MaxDepth = 0\<rparr>"
  using same_function_result[OF assms(1), of sp d]
  by (simp add: extractFunctionName_wellformed[OF assms(2,3)])

lemma direct_call_named:
  assumes "shortestPathContract sp (cg_g cg)"
    and "functionIDs cg A = functionID fileA lineA A # as"
    and "functionIDs cg B = functionID fileB lineB B # bs"
    and "(functionID fileA lineA A, functionID fileB lineB B) \<in> set (edges (cg_g cg))"
    and "functionID fileA lineA A \<noteq> functionID fileB lineB B" and "1 \<le> d"
    and "CHR 0x3A \<notin> set fileA" "CHR 0x3A \<notin> set A"
    and "CHR 0x3A \<notin> set fileB" "CHR 0x3A \<notin> set B"
  shows "AnalyzeReachability sp cg A B d =
           Inr \<lparr>IsValid = True, Reason = ''Source function can reach target function'',
                CallChains = [[A, B]], CommonCallers = [],
                Details = ''Direct call: '' @ A @ '' calls '' @ B,
                MinDepth = 1, MaxDepth = 1\<rparr>"
  using direct_call_result[OF assms(1-6)]
  by (simp add: extractFunctionName_wellformed[OF assms(7,8)]
      extractFunctionName_wellformed[OF assms(9,10)])

lemma drive_ids:
  "functionIDs (BuildCallGraph drive_registry) ''A'' = [''C:/proj/a.c:3:A'']"
  "functionIDs (BuildCallGraph drive_registry) ''B'' = [''C:/proj/a.c:9:B'']"
  by code_simp+

text \<open>
  Claim C7. The code at a registry whose file path holds a colon: the function \<open>A\<close>,
  defined at line 3 of \<open>C:/proj/a.c\<close>, analysed against itself is classified as the same
  function, but the single chain holds \<open>3\<close>, the third colon-separated piece of the
  identifier \<open>C:/proj/a.c:3:A\<close>, and not the name \<open>A\<close>.
\<close>

theorem same_function_chain_drive_path:
  "AnalyzeReachability sp (BuildCallGraph drive_registry) ''A'' ''A'' d =
     Inr \<lparr>IsValid = True, Reason = ''Functions are the same'',
          CallChains = [[''3'']], CommonCallers = [],
          Details = ''Both operations occur in the same function: A'',
          MinDepth = 0, MaxDepth = 0\<rparr>"
proof -
  have "extractFunctionName ''C:/proj/a.c:3:A'' = ''3''" by code_simp
  with same_function_result[OF drive_ids(1), of sp d] show ?thesis by simp
qed

text \<open>
  Claim C8. The code at the same registry, where \<open>A\<close> calls \<open>B\<close> directly, with
  \<open>maxDepth = 1\<close>: the result is forward reachable with both depths 1 and a two-element
  chain, but the chain is \<open>[3, 9]\<close>, the two definition lines, and not \<open>[A, B]\<close>.
\<close>

theorem direct_call_chain_drive_path:
  "AnalyzeReachability refShortestPath (BuildCallGraph drive_registry) ''A'' ''B'' 1 =
     Inr \<lparr>IsValid = True, Reason = ''Source function can reach target function'',
          CallChains = [[''3'', ''9'']], CommonCallers = [],
          Details = ''Direct call: A calls B'',
          MinDepth = 1, MaxDepth = 1\<rparr>"
  by code_simp

text \<open>
  Claim C10. Every call of the analysis returns a result, with at most one call chain;
  a valid result has exactly one chain, and its minimum and maximum depth both equal
  that chain's length minus one. The analyzer never holds two paths, so the branch of
  \<^verbatim>\<open>calculatePathDepths\<close> that adds two depths is not reached from the analysis.
\<close>

theorem single_chain_result:
  "length (allPaths (runAnalyzer sp cg s t d)) < 2 \<and>
   (\<exists>r. AnalyzeReachability sp cg s t d = Inr r \<and> length (CallChains r) \<le> 1 \<and>
        (IsValid r \<longrightarrow> (\<exists>c. CallChains r = [c] \<and> MinDepth r = int (length c) - 1 \<and>
                               MaxDepth r = MinDepth r)))"
proof -
  have inv: "analyzer_inv (runAnalyzer sp cg s t d)" by (rule runAnalyzer_inv)
  then have "length (allPaths (runAnalyzer sp cg s t d)) < 2"
    by (auto simp: analyzer_inv_def split: if_splits)
  moreover
  from buildResult_inv[OF inv] obtain r where
    r: "buildResult (runAnalyzer sp cg s t d) = Inr r"
    and v: "if IsValid r
            then \<exists>c. allPaths (runAnalyzer sp cg s t d) = [c] \<and> CallChains r = [c] \<and>
                     MinDepth r = int (length c) - 1 \<and> MaxDepth r = int (length c) - 1
            else CallChains r = []"
    by blast
  from v have "length (CallChains r) \<le> 1 \<and>
        (IsValid r \<longrightarrow> (\<exists>c. CallChains r = [c] \<and> MinDepth r = int (length c) - 1 \<and>
                               MaxDepth r = MinDepth r))"
    by (auto split: if_splits)
  with r have "\<exists>r. AnalyzeReachability sp cg s t d = Inr r \<and> length (CallChains r) \<le> 1 \<and>
        (IsValid r \<longrightarrow> (\<exists>c. CallChains r = [c] \<and> MinDepth r = int (length c) - 1 \<and>
                               MaxDepth r = MinDepth r))"
    by (auto simp: AnalyzeReachability_def)
  ultimately show ?thesis by blast
qed

theorem single_chain_result_witness:
  "\<exists>r. AnalyzeReachability refShortestPath (BuildCallGraph chain_registry) ''f0'' ''f5'' 10 = Inr r \<and>
       IsValid r \<and> CallChains r = [[''f0'', ''f1'', ''f2'', ''f3'', ''f4'', ''f5'']] \<and>
       MinDepth r = 5 \<and> MaxDepth r = 5"
proof -
  let ?cg = "BuildCallGraph chain_registry"
  from single_chain_result[of refShortestPath ?cg "''f0''" "''f5''" 10]
  obtain r where r: "AnalyzeReachability refShortestPath ?cg ''f0'' ''f5'' 10 = Inr r"
    and v: "IsValid r \<longrightarrow> (\<exists>c. CallChains r = [c] \<and> MinDepth r = int (length c) - 1 \<and>
                               MaxDepth r = MinDepth r)"
    by blast
  have e: "AnalyzeReachability refShortestPath ?cg ''f0'' ''f5'' 10 =
     Inr \<lparr>IsValid = True, Reason = ''Source function can reach target function'',
          CallChains = [[''f0'', ''f1'', ''f2'', ''f3'', ''f4'', ''f5'']], CommonCallers = [],
          Details = ''Call chain: f0 '' @ arrow @ '' f5'',
          MinDepth = 5, MaxDepth = 5\<rparr>"
    by code_simp
  with r have "IsValid r" "CallChains r = [[''f0'', ''f1'', ''f2'', ''f3'', ''f4'', ''f5'']]"
    by auto
  with v have "MinDepth r = 5" "MaxDepth r = 5" by auto
  with r \<open>IsValid r\<close> \<open>CallChains r = [[''f0'', ''f1'', ''f2'', ''f3'', ''f4'', ''f5'']]\<close>
  show ?thesis by blast
qed

section \<open>Invariants of the worker pool\<close>

text \<open>
  Every item in the hands of a worker and every result sent carries the payload of its
  item. When no worker can find the context done and no processing panics, no worker ever
  returns early, every index is on the work channel, in a worker's hands or on the result
  channel, exactly once, and the counter events performed and still to perform are those
  of all items.
\<close>

lemma reachable_payload:
  assumes "reachable cfg s"
  shows "(\<forall>i evs r. (i, evs, r) \<in># busy s \<longrightarrow> (\<exists>d. outcome cfg i = Inr (d @ evs, r))) \<and>
         (\<forall>i r. (i, r) \<in> set (resultChan s) \<longrightarrow> (\<exists>evs. outcome cfg i = Inr (evs, r)))"
  using assms
proof (induction rule: reachable.induct)
  case start
  show ?case by (simp add: initialState_def)
next
  case (step s s')
  from step.hyps(2) step.IH show ?case
  proof (cases rule: poolStep.cases)
    case (take i rest evs r)
    with step.IH show ?thesis by auto
  next
    case (panics i rest p)
    with step.IH show ?thesis by auto
  next
    case (cancelled i rest)
    with step.IH show ?thesis by auto
  next
    case (count i ev evs r B)
    from step.IH count(3) have "\<exists>d. outcome cfg i = Inr (d @ ev # evs, r)" by simp
    then obtain d where "outcome cfg i = Inr ((d @ [ev]) @ evs, r)" by auto
    then have "\<exists>d. outcome cfg i = Inr (d @ evs, r)" by blast
    with step.IH count show ?thesis by auto
  next
    case (send i r B)
    from step.IH send(3) have "\<exists>evs. outcome cfg i = Inr (evs, r)" by force
    with step.IH send show ?thesis by auto
  qed
qed

lemma reachable_account:
  assumes "reachable cfg s" "\<not> cancellable cfg" "neverPanics cfg"
  shows "\<not> crashed s \<and> live s = numWorkers cfg \<and>
         mset (pending s) + image_mset fst (busy s) + mset (map fst (resultChan s))
           = mset [0..<numItems cfg]"
  using assms
proof (induction rule: reachable.induct)
  case start
  show ?case by (simp add: initialState_def)
next
  case (step s s')
  then have IH: "\<not> crashed s" "live s = numWorkers cfg"
    "mset (pending s) + image_mset fst (busy s) + mset (map fst (resultChan s))
           = mset [0..<numItems cfg]" by simp_all
  from step.hyps(2) show ?case
  proof (cases rule: poolStep.cases)
    case (take i rest evs r)
    with IH show ?thesis by simp
  next
    case (panics i rest p)
    with step.prems(2) show ?thesis by (auto simp: neverPanics_def dest: spec[of _ i])
  next
    case (cancelled i rest)
    with step.prems(1) show ?thesis by simp
  next
    case (count i ev evs r B)
    with IH show ?thesis by simp
  next
    case (send i r B)
    with IH show ?thesis by simp
  qed
qed

lemma reachable_trace:
  assumes "reachable cfg s" "\<not> cancellable cfg" "neverPanics cfg"
  shows "mset (trace s) + sum_mset (image_mset (\<lambda>(i, evs, r). mset evs) (busy s))
           + sum_list (map (\<lambda>i. mset (eventsOf cfg i)) (pending s))
         = sum_list (map (\<lambda>i. mset (eventsOf cfg i)) [0..<numItems cfg])"
  using assms
proof (induction rule: reachable.induct)
  case start
  show ?case by (simp add: initialState_def)
next
  case (step s s')
  then have IH: "mset (trace s) + sum_mset (image_mset (\<lambda>(i, evs, r). mset evs) (busy s))
           + sum_list (map (\<lambda>i. mset (eventsOf cfg i)) (pending s))
         = sum_list (map (\<lambda>i. mset (eventsOf cfg i)) [0..<numItems cfg])" by simp
  from step.hyps(2) show ?case
  proof (cases rule: poolStep.cases)
    case (take i rest evs r)
    then have "eventsOf cfg i = evs" by (simp add: eventsOf_def)
    with take IH show ?thesis by (simp add: ac_simps)
  next
    case (panics i rest p)
    with step.prems(2) show ?thesis by (auto simp: neverPanics_def dest: spec[of _ i])
  next
    case (cancelled i rest)
    with step.prems(1) show ?thesis by simp
  next
    case (count i ev evs r B)
    with IH show ?thesis by (simp add: ac_simps)
  next
    case (send i r B)
    with IH show ?thesis by simp
  qed
qed

lemma finished_results:
  assumes r: "reachable cfg s" and nc: "\<not> cancellable cfg" and np: "neverPanics cfg"
    and w: "0 < numWorkers cfg" and f: "finished s"
  shows "mset (map fst (resultChan s)) = mset [0..<numItems cfg]"
    and "\<forall>(i, x) \<in> set (resultChan s). payloadOf cfg i = Some x"
    and "mset (trace s) = sum_list (map (\<lambda>i. mset (eventsOf cfg i)) [0..<numItems cfg])"
proof -
  from reachable_account[OF r nc np] have l: "live s = numWorkers cfg"
    and a: "mset (pending s) + image_mset fst (busy s) + mset (map fst (resultChan s))
           = mset [0..<numItems cfg]" by simp_all
  from f l w have e: "busy s = {#}" "pending s = []" by (auto simp: finished_def)
  with a show "mset (map fst (resultChan s)) = mset [0..<numItems cfg]" by simp
  from reachable_payload[OF r]
  show "\<forall>(i, x) \<in> set (resultChan s). payloadOf cfg i = Some x"
    by (fastforce simp: payloadOf_def)
  from reachable_trace[OF r nc np] e
  show "mset (trace s) = sum_list (map (\<lambda>i. mset (eventsOf cfg i)) [0..<numItems cfg])"
    by simp
qed

subsection \<open>Every run ends\<close>

text \<open>
  A state that is neither finished nor crashed has a step, and every step leaves less
  work: no run deadlocks or goes on forever, and a pool that cannot panic or be cancelled
  reaches a finished state.
\<close>

lemma poolStep_workLeft: "poolStep cfg s s' \<Longrightarrow> workLeft cfg s' < workLeft cfg s"
  by (induction rule: poolStep.induct) (auto simp: workLeft_def eventsOf_def)

lemma poolStep_progress:
  assumes "\<not> finished s" "\<not> crashed s"
  shows "\<exists>s'. poolStep cfg s s'"
proof (cases "busy s = {#}")
  case True
  with assms have "pending s \<noteq> []" "live s \<noteq> 0" by (auto simp: finished_def)
  then obtain i rest where p: "pending s = i # rest" by (cases "pending s") auto
  from True \<open>live s \<noteq> 0\<close> have sz: "size (busy s) < live s" by simp
  show ?thesis
  proof (cases "outcome cfg i")
    case (Inl p')
    from poolStep.panics[OF assms(2) p sz Inl] show ?thesis by blast
  next
    case (Inr x)
    obtain evs r where "x = (evs, r)" by (cases x)
    with Inr poolStep.take[OF assms(2) p sz] show ?thesis by blast
  qed
next
  case False
  then obtain x B where b: "busy s = add_mset x B" by (meson multiset_cases)
  obtain i evs r where x: "x = (i, evs, r)" by (cases x)
  show ?thesis
  proof (cases evs)
    case Nil
    with b x poolStep.send[OF assms(2)] show ?thesis by blast
  next
    case (Cons ev evs')
    with b x poolStep.count[OF assms(2)] show ?thesis by blast
  qed
qed

lemma run_ends:
  "reachable cfg s \<Longrightarrow> \<exists>s'. reachable cfg s' \<and> (finished s' \<or> crashed s')"
proof (induction "workLeft cfg s" arbitrary: s rule: less_induct)
  case less
  show ?case
  proof (cases "finished s \<or> crashed s")
    case True
    with less.prems show ?thesis by blast
  next
    case False
    then obtain s' where st: "poolStep cfg s s'" using poolStep_progress by blast
    then have "workLeft cfg s' < workLeft cfg s" by (rule poolStep_workLeft)
    moreover from less.prems st have "reachable cfg s'" by (rule reachable.step)
    ultimately show ?thesis using less.hyps by blast
  qed
qed

lemma run_completes:
  assumes "\<not> cancellable cfg" "neverPanics cfg"
  shows "\<exists>s. reachable cfg s \<and> finished s"
proof -
  from run_ends[OF reachable.start, of cfg] obtain s where
    s: "reachable cfg s" "finished s \<or> crashed s" by blast
  from reachable_account[OF s(1) assms] have "\<not> crashed s" by simp
  with s show ?thesis by blast
qed

subsection \<open>The worker body and the collection of results\<close>

lemma enrichWithSourceCode_result:
  "enrichWithSourceCode e result = Inr f \<Longrightarrow> CodeQLResult f = result"
  by (auto simp: enrichWithSourceCode_def Let_def split: sum.splits)

lemma baseFinding_result: "CodeQLResult (baseFinding e result) = result"
  by (auto simp: baseFinding_def enrichWithSourceCode_result split: sum.splits)

lemma processItem_cases:
  "\<exists>evs f. processItem e sp callGraph validateCalls callDepth result = Inr (evs, f) \<and>
     (if validateCalls \<and> callGraph \<noteq> None
      then (if passesFilter sp callGraph validateCalls callDepth result
            then evs = [IncTotal, IncValid] \<and> (\<exists>x. f = Some x \<and> CodeQLResult x = result)
            else evs = [IncTotal, IncInvalid] \<and> f = None)
      else evs = [] \<and> (\<exists>x. f = Some x \<and> CodeQLResult x = result) \<and>
           passesFilter sp callGraph validateCalls callDepth result)"
proof (cases callGraph)
  case None
  then show ?thesis
    using baseFinding_result[of e result]
    by (simp add: processItem_def passesFilter_def baseFinding_def)
next
  case (Some cg)
  show ?thesis
  proof (cases validateCalls)
    case False
    with Some show ?thesis
      using baseFinding_result[of e result]
      by (simp add: processItem_def passesFilter_def baseFinding_def)
  next
    case True
    obtain v where v: "ValidateCallRelationship sp cg (FreeFunctionName result)
        (UseFunctionName result) (if callDepth < 0 then 10 else callDepth) = Inr v"
      using AnalyzeReachability_total[of sp cg "FreeFunctionName result" "UseFunctionName result"
          "if callDepth < 0 then 10 else callDepth"]
      unfolding ValidateCallRelationship_def by blast
    show ?thesis
    proof (cases "IsValid v \<and> \<not> (callDepth \<ge> 0 \<and> MaxDepth v > callDepth)")
      case True
      with Some \<open>validateCalls\<close> v show ?thesis
        using baseFinding_result[of e result]
        by (simp add: processItem_def passesFilter_def baseFinding_def Let_def)
    next
      case False
      with Some \<open>validateCalls\<close> v show ?thesis
        by (auto simp: processItem_def passesFilter_def Let_def)
    qed
  qed
qed

lemma processItem_outcome:
  "processItem e sp cg v d r = Inr (eventsFor sp cg v d r, sentFinding e sp cg v d r)"
  using processItem_cases[of e sp cg v d r]
  by (auto simp: eventsFor_def sentFinding_def split: if_splits)

lemma enrichPool_neverPanics: "neverPanics (enrichPool e sp results cg v d c)"
  using processItem_cases by (fastforce simp: neverPanics_def enrichPool_def)

lemma enrichPool_workers: "0 < NumCPU e \<Longrightarrow> 0 < numWorkers (enrichPool e sp results cg v d c)"
  by (simp add: enrichPool_def numWorkersFor_def)

lemma enrichPool_payload:
  "payloadOf (enrichPool e sp results cg v d c) i = Some (sentFinding e sp cg v d (results ! i))"
  using processItem_cases[of e sp cg v d "results ! i"]
  by (auto simp: payloadOf_def enrichPool_def sentFinding_def)

lemma enrichPool_events:
  "eventsOf (enrichPool e sp results cg v d c) i = eventsFor sp cg v d (results ! i)"
  by (simp add: eventsOf_def enrichPool_def processItem_outcome)

lemma sentFinding_passes:
  "(if passesFilter sp cg v d r
    then \<exists>x. sentFinding e sp cg v d r = Some x \<and> CodeQLResult x = r
    else sentFinding e sp cg v d r = None)"
  using processItem_cases[of e sp cg v d r]
  by (auto simp: sentFinding_def split: if_splits)

lemma sent_results_filter:
  "map CodeQLResult (List.map_filter (sentFinding e sp cg v d) results)
     = filter (passesFilter sp cg v d) results"
proof (induction results)
  case Nil
  show ?case by (simp add: List.map_filter_simps)
next
  case (Cons r rs)
  with sentFinding_passes[of sp cg v d r e] show ?case
    by (auto simp: List.map_filter_simps split: if_splits)
qed

lemma collectFindings_snoc:
  "collectFindings (rs @ [(i, f)]) =
     (case f of None \<Rightarrow> collectFindings rs | Some x \<Rightarrow> (collectFindings rs)(i \<mapsto> x))"
  by (cases f) (simp_all add: collectFindings_def)

lemma collectFindings_determined:
  assumes "\<forall>(i, f) \<in> set rs. f = g i"
  shows "collectFindings rs = (\<lambda>i. if i \<in> fst ` set rs then g i else None)"
  using assms
proof (induction rs rule: rev_induct)
  case Nil
  show ?case by (simp add: collectFindings_def)
next
  case (snoc x rs)
  obtain i f where x: "x = (i, f)" by (cases x)
  from snoc.prems x have f: "f = g i" and rest: "\<forall>(i, f) \<in> set rs. f = g i" by auto
  from snoc.IH[OF rest] have IH: "collectFindings rs = (\<lambda>i. if i \<in> fst ` set rs then g i else None)" .
  show ?case
  proof (rule ext)
    fix j
    show "collectFindings (rs @ [x]) j = (if j \<in> fst ` set (rs @ [x]) then g j else None)"
      unfolding x collectFindings_snoc using IH f
      by (cases "g i") (auto simp: image_iff)
  qed
qed

lemma orderedResults_determined:
  assumes "\<forall>(i, f) \<in> set rs. f = g i" and "mset (map fst rs) = mset [0..<n]"
  shows "orderedResults n (collectFindings rs) = List.map_filter g [0..<n]"
proof -
  from assms(2) have "set (map fst rs) = set [0..<n]" by (rule mset_eq_setD)
  then have s: "fst ` set rs = {0..<n}" by simp
  have "\<And>i. i \<in> set [0..<n] \<Longrightarrow> collectFindings rs i = g i"
    unfolding collectFindings_determined[OF assms(1)] s by simp
  then show ?thesis
    unfolding orderedResults_def List.map_filter_def
    by (auto intro!: map_cong filter_cong)
qed

lemma map_filter_nth:
  "List.map_filter (\<lambda>i. h (xs ! i)) [0..<length xs] = List.map_filter h xs"
proof -
  have "List.map_filter (\<lambda>i. h (xs ! i)) [0..<length xs]
          = List.map_filter h (map (\<lambda>i. xs ! i) [0..<length xs])"
    by (simp add: List.map_filter_def filter_map o_def)
  then show ?thesis by (simp add: map_nth)
qed

subsection \<open>Counters\<close>

lemma countersAfter_snoc: "countersAfter (evs @ [ev]) = applyEvent (countersAfter evs) ev"
  by (simp add: countersAfter_def)

lemma countersAfter_count:
  "countersAfter evs =
     \<lparr>total = of_nat (count (mset evs) IncTotal),
      valid = of_nat (count (mset evs) IncValid),
      invalid = of_nat (count (mset evs) IncInvalid)\<rparr>"
proof (induction evs rule: rev_induct)
  case Nil
  show ?case by (simp add: countersAfter_def)
next
  case (snoc ev evs)
  then show ?case
    unfolding countersAfter_snoc by (cases ev) simp_all
qed

lemma count_sum_list:
  "count (sum_list (map f xs)) a = sum_list (map (\<lambda>x. count (f x) a) xs)"
  by (induction xs) simp_all

lemma sum_list_nth: "sum_list (map (\<lambda>i. h (xs ! i)) [0..<length xs]) = sum_list (map h xs)"
proof -
  have "map (\<lambda>i. h (xs ! i)) [0..<length xs] = map h (map (\<lambda>i. xs ! i) [0..<length xs])"
    by simp
  then show ?thesis by (simp only: map_nth)
qed

lemma sum_list_indicator:
  "sum_list (map (\<lambda>x. if P x then 1 else 0) xs) = length (filter P xs)"
  by (induction xs) simp_all

lemma eventsFor_counts:
  assumes "v \<and> cg \<noteq> None"
  shows "count (mset (eventsFor sp cg v d r)) IncTotal = 1"
    and "count (mset (eventsFor sp cg v d r)) IncValid
           = (if passesFilter sp cg v d r then 1 else 0)"
    and "count (mset (eventsFor sp cg v d r)) IncInvalid
           = (if \<not> passesFilter sp cg v d r then 1 else 0)"
  using assms by (simp_all add: eventsFor_def)

lemma enrich_trace_count:
  assumes run: "reachable (enrichPool e sp results cg v d c) s" and fin: "finished s"
    and cpu: "0 < NumCPU e"
  shows "count (mset (trace s)) a
           = sum_list (map (\<lambda>r. count (mset (eventsFor sp cg v d r)) a) results)"
proof -
  let ?cfg = "enrichPool e sp results cg v d c"
  have nc: "\<not> cancellable ?cfg" by (simp add: enrichPool_def)
  have n: "numItems ?cfg = length results" by (simp add: enrichPool_def)
  note fr = finished_results[OF run nc enrichPool_neverPanics enrichPool_workers[OF cpu] fin]
  from fr(3) have "mset (trace s)
      = sum_list (map (\<lambda>i. mset (eventsFor sp cg v d (results ! i))) [0..<length results])"
    by (simp add: n enrichPool_events)
  then have "count (mset (trace s)) a
      = sum_list (map (\<lambda>i. count (mset (eventsFor sp cg v d (results ! i))) a) [0..<length results])"
    by (simp add: count_sum_list)
  then show ?thesis
    by (simp only: sum_list_nth[of "\<lambda>r. count (mset (eventsFor sp cg v d r)) a" results])
qed

subsection \<open>The generic pool\<close>

lemma firstError_snoc:
  "firstError (rs @ [(i, x, err)]) =
     (if err \<noteq> None \<and> firstError rs = None then err else firstError rs)"
  by (induction rs rule: firstError.induct) auto

lemma firstError_None: "firstError rs = None \<longleftrightarrow> (\<forall>(i, x, err) \<in> set rs. err = None)"
  by (induction rs rule: firstError.induct) auto

lemma store_fold:
  assumes "\<forall>(i, x, err) \<in> set rs. x = g i \<and> i < n"
  shows "foldl (storeResult n) (replicate n zero, None) rs =
           (map (\<lambda>j. if j \<in> fst ` set rs then g j else zero) [0..<n], firstError rs)"
  using assms
proof (induction rs rule: rev_induct)
  case Nil
  show ?case by (simp add: map_replicate_const)
next
  case (snoc y rs)
  obtain i x err where y: "y = (i, x, err)" by (cases y)
  from snoc.prems y have x: "x = g i" "i < n"
    and rest: "\<forall>(i, x, err) \<in> set rs. x = g i \<and> i < n" by auto
  note IH = snoc.IH[OF rest]
  have upd: "(map (\<lambda>j. if j \<in> fst ` set rs then g j else zero) [0..<n])[i := x]
          = map (\<lambda>j. if j \<in> fst ` set (rs @ [y]) then g j else zero) [0..<n]"
    using x y by (intro nth_equalityI) (auto simp: nth_list_update)
  have "foldl (storeResult n) (replicate n zero, None) (rs @ [y])
          = storeResult n (map (\<lambda>j. if j \<in> fst ` set rs then g j else zero) [0..<n],
                           firstError rs) (i, x, err)"
    by (simp add: IH y)
  also have "\<dots> = ((map (\<lambda>j. if j \<in> fst ` set rs then g j else zero) [0..<n])[i := x],
                    firstError (rs @ [(i, x, err)]))"
    using x(2) by (simp add: storeResult_def firstError_snoc)
  finally show ?case unfolding upd y .
qed

lemma NewWorkerPool_positive: "0 < NewWorkerPool concurrency"
  by (simp add: NewWorkerPool_def)

lemma processPool_neverPanics: "neverPanics (processPool w cc items processor)"
  by (simp add: neverPanics_def processPool_def)

subsection \<open>The concrete runs are runs\<close>

lemma reach_take:
  assumes "reachable cfg s" "\<not> crashed s" "pending s = i # rest" "size (busy s) < live s"
    "outcome cfg i = Inr (evs, r)"
    "s' = s\<lparr>pending := rest, busy := add_mset (i, evs, r) (busy s)\<rparr>"
  shows "reachable cfg s'"
proof -
  have "poolStep cfg s s'"
    unfolding assms(6) using assms(2-5) by (rule poolStep.take)
  with assms(1) show ?thesis by (rule reachable.step)
qed

lemma reach_count:
  assumes "reachable cfg s" "\<not> crashed s" "busy s = add_mset (i, ev # evs, r) B"
    "s' = s\<lparr>busy := add_mset (i, evs, r) B, trace := trace s @ [ev]\<rparr>"
  shows "reachable cfg s'"
proof -
  have "poolStep cfg s s'"
    unfolding assms(4) using assms(2,3) by (rule poolStep.count)
  with assms(1) show ?thesis by (rule reachable.step)
qed

lemma reach_send:
  assumes "reachable cfg s" "\<not> crashed s" "busy s = add_mset (i, [], r) B"
    "s' = s\<lparr>busy := B, resultChan := resultChan s @ [(i, r)]\<rparr>"
  shows "reachable cfg s'"
proof -
  have "poolStep cfg s s'"
    unfolding assms(4) using assms(2,3) by (rule poolStep.send)
  with assms(1) show ?thesis by (rule reachable.step)
qed

lemma demo_validation:
  "AnalyzeReachability refShortestPath (BuildCallGraph chain_registry) ''f0'' ''f2'' 3 =
     Inr \<lparr>IsValid = True, Reason = ''Source function can reach target function'',
          CallChains = [[''f0'', ''f1'', ''f2'']], CommonCallers = [],
          Details = ''Call chain: f0 '' @ arrow @ '' f2'', MinDepth = 2, MaxDepth = 2\<rparr>"
  "AnalyzeReachability refShortestPath (BuildCallGraph chain_registry) ''f0'' ''f7'' 3 =
     Inr \<lparr>IsValid = False,
          Reason = ''No reachability relationship found between functions'',
          CallChains = [], CommonCallers = [],
          Details = ''No direct calls, reverse calls, or common callers found between f0 and f7 within depth 3'',
          MinDepth = 0, MaxDepth = 0\<rparr>"
  "AnalyzeReachability refShortestPath (BuildCallGraph chain_registry) ''f6'' ''f5'' 3 =
     Inr \<lparr>IsValid = True, Reason = ''Target function can reach source function'',
          CallChains = [[''f5'', ''f6'']], CommonCallers = [],
          Details = ''Reverse call: f5 calls f6'', MinDepth = 1, MaxDepth = 1\<rparr>"
  by code_simp+

lemma demo_events:
  "eventsFor refShortestPath (Some (BuildCallGraph chain_registry)) True 3
     (demoResult ''f0'' 1 ''f2'' 21) = [IncTotal, IncValid]"
  "eventsFor refShortestPath (Some (BuildCallGraph chain_registry)) True 3
     (demoResult ''f0'' 1 ''f7'' 71) = [IncTotal, IncInvalid]"
  "eventsFor refShortestPath (Some (BuildCallGraph chain_registry)) True 3
     (demoResult ''f6'' 61 ''f5'' 51) = [IncTotal, IncValid]"
  by (simp_all add: eventsFor_def passesFilter_def ValidateCallRelationship_def
      demoResult_def demo_validation)

lemma demo_passes_each:
  "passesFilter refShortestPath (Some (BuildCallGraph chain_registry)) True 3
     (demoResult ''f0'' 1 ''f2'' 21)"
  "\<not> passesFilter refShortestPath (Some (BuildCallGraph chain_registry)) True 3
     (demoResult ''f0'' 1 ''f7'' 71)"
  "passesFilter refShortestPath (Some (BuildCallGraph chain_registry)) True 3
     (demoResult ''f6'' 61 ''f5'' 51)"
  using demo_events by (auto simp: eventsFor_def split: if_splits)

lemma demo_passes:
  "filter (passesFilter refShortestPath (Some (BuildCallGraph chain_registry)) True 3) demoResults
     = [demoResult ''f0'' 1 ''f2'' 21, demoResult ''f6'' 61 ''f5'' 51]"
  "filter (\<lambda>r. \<not> passesFilter refShortestPath (Some (BuildCallGraph chain_registry)) True 3 r)
      demoResults
     = [demoResult ''f0'' 1 ''f7'' 71]"
  using demo_passes_each by (simp_all add: demoResults_def)

lemma demo_outcome:
  "outcome demoPool 0 = Inr ([IncTotal, IncValid], demoSent 0)"
  "outcome demoPool 1 = Inr ([IncTotal, IncInvalid], demoSent 1)"
  "outcome demoPool 2 = Inr ([IncTotal, IncValid], demoSent 2)"
  using demo_events
  by (simp_all add: demoPool_def enrichPool_def processItem_outcome demoSent_def
      demoResults_def)

lemma demo_run: "reachable demoPool demoFinal"
proof -
  have u: "[0..<3] = [0, 1, 2]" by code_simp
  have "initialState demoPool =
          \<lparr>pending = [0, 1, 2], busy = {#}, resultChan = [], trace = [], live = 2,
           crashed = False\<rparr>"
    by (simp add: initialState_def demoPool_def enrichPool_def demoResults_def
        numWorkersFor_def u)
  with reachable.start[of demoPool]
  have s0: "reachable demoPool
          \<lparr>pending = [0, 1, 2], busy = {#}, resultChan = [], trace = [], live = 2,
           crashed = False\<rparr>" by simp
  have s1: "reachable demoPool
          \<lparr>pending = [1, 2], busy = {#(0, [IncTotal, IncValid], demoSent 0)#},
           resultChan = [], trace = [], live = 2, crashed = False\<rparr>"
    by (rule reach_take[OF s0 _ _ _ demo_outcome(1)]) simp_all
  have s2: "reachable demoPool
          \<lparr>pending = [2], busy = {#(1, [IncTotal, IncInvalid], demoSent 1),
                                   (0, [IncTotal, IncValid], demoSent 0)#},
           resultChan = [], trace = [], live = 2, crashed = False\<rparr>"
    by (rule reach_take[OF s1 _ _ _ demo_outcome(2)]) simp_all
  have s3: "reachable demoPool
          \<lparr>pending = [2], busy = {#(0, [IncValid], demoSent 0),
                                   (1, [IncTotal, IncInvalid], demoSent 1)#},
           resultChan = [], trace = [IncTotal], live = 2, crashed = False\<rparr>"
    by (rule reach_count[OF s2, where i = 0 and ev = IncTotal and evs = "[IncValid]"
          and r = "demoSent 0" and B = "{#(1, [IncTotal, IncInvalid], demoSent 1)#}"]) simp_all
  have s4: "reachable demoPool
          \<lparr>pending = [2], busy = {#(1, [IncInvalid], demoSent 1),
                                   (0, [IncValid], demoSent 0)#},
           resultChan = [], trace = [IncTotal, IncTotal], live = 2, crashed = False\<rparr>"
    by (rule reach_count[OF s3, where i = 1 and ev = IncTotal and evs = "[IncInvalid]"
          and r = "demoSent 1" and B = "{#(0, [IncValid], demoSent 0)#}"]) simp_all
  have s5: "reachable demoPool
          \<lparr>pending = [2], busy = {#(1, [], demoSent 1), (0, [IncValid], demoSent 0)#},
           resultChan = [], trace = [IncTotal, IncTotal, IncInvalid], live = 2,
           crashed = False\<rparr>"
    by (rule reach_count[OF s4, where i = 1 and ev = IncInvalid and evs = "[]"
          and r = "demoSent 1" and B = "{#(0, [IncValid], demoSent 0)#}"]) simp_all
  have s6: "reachable demoPool
          \<lparr>pending = [2], busy = {#(0, [IncValid], demoSent 0)#},
           resultChan = [(1, demoSent 1)], trace = [IncTotal, IncTotal, IncInvalid],
           live = 2, crashed = False\<rparr>"
    by (rule reach_send[OF s5, where i = 1 and r = "demoSent 1"
          and B = "{#(0, [IncValid], demoSent 0)#}"]) simp_all
  have s7: "reachable demoPool
          \<lparr>pending = [], busy = {#(2, [IncTotal, IncValid], demoSent 2),
                                  (0, [IncValid], demoSent 0)#},
           resultChan = [(1, demoSent 1)], trace = [IncTotal, IncTotal, IncInvalid],
           live = 2, crashed = False\<rparr>"
    by (rule reach_take[OF s6 _ _ _ demo_outcome(3)]) simp_all
  have s8: "reachable demoPool
          \<lparr>pending = [], busy = {#(2, [IncValid], demoSent 2), (0, [IncValid], demoSent 0)#},
           resultChan = [(1, demoSent 1)],
           trace = [IncTotal, IncTotal, IncInvalid, IncTotal], live = 2, crashed = False\<rparr>"
    by (rule reach_count[OF s7, where i = 2 and ev = IncTotal and evs = "[IncValid]"
          and r = "demoSent 2" and B = "{#(0, [IncValid], demoSent 0)#}"]) simp_all
  have s9: "reachable demoPool
          \<lparr>pending = [], busy = {#(0, [], demoSent 0), (2, [IncValid], demoSent 2)#},
           resultChan = [(1, demoSent 1)],
           trace = [IncTotal, IncTotal, IncInvalid, IncTotal, IncValid], live = 2,
           crashed = False\<rparr>"
    by (rule reach_count[OF s8, where i = 0 and ev = IncValid and evs = "[]"
          and r = "demoSent 0" and B = "{#(2, [IncValid], demoSent 2)#}"]) simp_all
  have s10: "reachable demoPool
          \<lparr>pending = [], busy = {#(2, [IncValid], demoSent 2)#},
           resultChan = [(1, demoSent 1), (0, demoSent 0)],
           trace = [IncTotal, IncTotal, IncInvalid, IncTotal, IncValid], live = 2,
           crashed = False\<rparr>"
    by (rule reach_send[OF s9, where i = 0 and r = "demoSent 0"
          and B = "{#(2, [IncValid], demoSent 2)#}"]) simp_all
  have s11: "reachable demoPool
          \<lparr>pending = [], busy = {#(2, [], demoSent 2)#},
           resultChan = [(1, demoSent 1), (0, demoSent 0)],
           trace = [IncTotal, IncTotal, IncInvalid, IncTotal, IncValid, IncValid], live = 2,
           crashed = False\<rparr>"
    by (rule reach_count[OF s10, where i = 2 and ev = IncValid and evs = "[]"
          and r = "demoSent 2" and B = "{#}"]) simp_all
  show ?thesis
    unfolding demoFinal_def
    by (rule reach_send[OF s11, where i = 2 and r = "demoSent 2" and B = "{#}"]) simp_all
qed

lemma demo_finished: "finished demoFinal"
  by (simp add: finished_def demoFinal_def)

lemma fail_enrich:
  "enrichWithSourceCode failEnv (demoResult ''f0'' 1 ''f2'' 21) =
     Inl ''failed to find free function src/chain.c:1:f0: function not found: src/chain.c:1:f0''"
  by code_simp

lemma fail_run: "reachable failPool failFinal"
proof -
  let ?f = "\<lparr>CodeQLResult = demoResult ''f0'' 1 ''f2'' 21,
              SourceCode = emptySourceCode, CallValidation = None\<rparr>"
  have o: "outcome failPool 0 = Inr ([], Some ?f)"
    by (simp add: failPool_def enrichPool_def processItem_def fail_enrich)
  have "initialState failPool =
          \<lparr>pending = [0], busy = {#}, resultChan = [], trace = [], live = 1, crashed = False\<rparr>"
    by (simp add: initialState_def failPool_def enrichPool_def numWorkersFor_def)
  with reachable.start[of failPool]
  have s0: "reachable failPool
          \<lparr>pending = [0], busy = {#}, resultChan = [], trace = [], live = 1, crashed = False\<rparr>"
    by simp
  have s1: "reachable failPool
          \<lparr>pending = [], busy = {#(0, [], Some ?f)#}, resultChan = [], trace = [], live = 1,
           crashed = False\<rparr>"
    by (rule reach_take[OF s0 _ _ _ o]) simp_all
  show ?thesis
    unfolding failFinal_def
    by (rule reach_send[OF s1, where i = 0 and r = "Some ?f" and B = "{#}"]) simp_all
qed

lemma work_processor:
  "demoProcessor 10 = (20, None)"
  "demoProcessor 20 = (40, Some ''cannot process 20'')"
  "demoProcessor 30 = (60, Some ''cannot process 30'')"
  by code_simp+

lemma work_run: "reachable workPool workFinal"
proof -
  have o: "outcome workPool 0 = Inr ([], (20, None))"
    "outcome workPool 1 = Inr ([], (40, Some ''cannot process 20''))"
    "outcome workPool 2 = Inr ([], (60, Some ''cannot process 30''))"
    by (simp_all add: workPool_def processPool_def demoItems_def work_processor)
  have u: "[0..<3] = [0, 1, 2]" by code_simp
  have "initialState workPool =
          \<lparr>pending = [0, 1, 2], busy = {#}, resultChan = [], trace = [], live = 2,
           crashed = False\<rparr>"
    by (simp add: initialState_def workPool_def processPool_def NewWorkerPool_def
        demoItems_def u)
  with reachable.start[of workPool]
  have s0: "reachable workPool
          \<lparr>pending = [0, 1, 2], busy = {#}, resultChan = [], trace = [], live = 2,
           crashed = False\<rparr>"
    by simp
  have s1: "reachable workPool
          \<lparr>pending = [1, 2], busy = {#(0, [], (20, None))#}, resultChan = [], trace = [],
           live = 2, crashed = False\<rparr>"
    by (rule reach_take[OF s0 _ _ _ o(1)]) simp_all
  have s2: "reachable workPool
          \<lparr>pending = [2],
           busy = {#(1, [], (40, Some ''cannot process 20'')), (0, [], (20, None))#},
           resultChan = [], trace = [], live = 2, crashed = False\<rparr>"
    by (rule reach_take[OF s1 _ _ _ o(2)]) simp_all
  have s3: "reachable workPool
          \<lparr>pending = [2], busy = {#(1, [], (40, Some ''cannot process 20''))#},
           resultChan = [(0, 20, None)], trace = [], live = 2, crashed = False\<rparr>"
    by (rule reach_send[OF s2, where i = 0 and r = "(20, None)"
          and B = "{#(1, [], (40, Some ''cannot process 20''))#}"]) simp_all
  have s4: "reachable workPool
          \<lparr>pending = [],
           busy = {#(2, [], (60, Some ''cannot process 30'')),
                    (1, [], (40, Some ''cannot process 20''))#},
           resultChan = [(0, 20, None)], trace = [], live = 2, crashed = False\<rparr>"
    by (rule reach_take[OF s3 _ _ _ o(3)]) simp_all
  have s5: "reachable workPool
          \<lparr>pending = [], busy = {#(1, [], (40, Some ''cannot process 20''))#},
           resultChan = [(0, 20, None), (2, 60, Some ''cannot process 30'')], trace = [],
           live = 2, crashed = False\<rparr>"
    by (rule reach_send[OF s4, where i = 2 and r = "(60, Some ''cannot process 30'')"
          and B = "{#(1, [], (40, Some ''cannot process 20''))#}"]) simp_all
  show ?thesis
    unfolding workFinal_def
    by (rule reach_send[OF s5, where i = 1 and r = "(40, Some ''cannot process 20'')"
          and B = "{#}"]) simp_all
qed


section \<open>Claims about the enrichment pipeline\<close>

text \<open>
  Claim C2. Whatever the number of workers and the order in which the workers finish,
  when the result channel is closed \<^verbatim>\<open>EnrichResults\<close> returns, with a nil error, the findings
  its workers sent for the inputs, in input order and with nothing in place of the
  inputs whose finding was filtered out; the inputs of the returned findings are exactly
  the inputs that pass validation and the depth filter, in input order. The run is any
  finished state that the pool can reach; the number of processors is positive.
\<close>

theorem enrich_output_is_ordered_filter:
  assumes run: "reachable (enrichPool e sp results cg v d c) s" and fin: "finished s"
    and cpu: "0 < NumCPU e"
  shows "EnrichResults_return (length results) s =
           (List.map_filter (sentFinding e sp cg v d) results, None) \<and>
         map CodeQLResult (fst (EnrichResults_return (length results) s)) =
           filter (passesFilter sp cg v d) results"
proof -
  let ?cfg = "enrichPool e sp results cg v d c"
  have nc: "\<not> cancellable ?cfg" by (simp add: enrichPool_def)
  have n: "numItems ?cfg = length results" by (simp add: enrichPool_def)
  note fr = finished_results[OF run nc enrichPool_neverPanics enrichPool_workers[OF cpu] fin]
  from fr(2) have det: "\<forall>(i, f) \<in> set (resultChan s). f = sentFinding e sp cg v d (results ! i)"
    by (auto simp: enrichPool_payload)
  from fr(1) n have idx: "mset (map fst (resultChan s)) = mset [0..<length results]" by simp
  have "orderedResults (length results) (collectFindings (resultChan s))
          = List.map_filter (sentFinding e sp cg v d) results"
    unfolding orderedResults_determined[OF det idx] by (rule map_filter_nth)
  then show ?thesis
    by (simp add: EnrichResults_return_def sent_results_filter)
qed

text \<open>In the concrete run the results arrive in the order 1, 0, 2; the first and the third
  input are returned, in that order.\<close>

theorem enrich_output_is_ordered_filter_witness:
  "map fst (resultChan demoFinal) = [1, 0, 2] \<and>
   map CodeQLResult (fst (EnrichResults_return (length demoResults) demoFinal))
     = [demoResult ''f0'' 1 ''f2'' 21, demoResult ''f6'' 61 ''f5'' 51] \<and>
   snd (EnrichResults_return (length demoResults) demoFinal) = None"
proof (intro conjI)
  have cpu: "0 < NumCPU demoEnv" by (simp add: demoEnv_def)
  note inst = enrich_output_is_ordered_filter[OF demo_run[unfolded demoPool_def] demo_finished cpu]
  show "map fst (resultChan demoFinal) = [1, 0, 2]" by (simp add: demoFinal_def)
  from inst have "map CodeQLResult (fst (EnrichResults_return (length demoResults) demoFinal))
      = filter (passesFilter refShortestPath (Some (BuildCallGraph chain_registry)) True 3)
          demoResults"
    by (rule conjunct2)
  then show "map CodeQLResult (fst (EnrichResults_return (length demoResults) demoFinal))
     = [demoResult ''f0'' 1 ''f2'' 21, demoResult ''f6'' 61 ''f5'' 51]"
    by (simp only: demo_passes(1))
  from inst have "EnrichResults_return (length demoResults) demoFinal
      = (List.map_filter (sentFinding demoEnv refShortestPath
            (Some (BuildCallGraph chain_registry)) True 3) demoResults, None)"
    by (rule conjunct1)
  then show "snd (EnrichResults_return (length demoResults) demoFinal) = None"
    by (simp only: snd_conv)
qed

text \<open>
  Claim C9. When the result channel is closed, which is when \<^verbatim>\<open>EnrichResults\<close> reads the
  counters, \<open>total = valid + invalid\<close> in the 32-bit arithmetic of the counters. With
  validation on and a call graph present, \<open>total\<close> counts every input, \<open>valid\<close> the inputs
  that pass and \<open>invalid\<close> the others, so every input is counted in exactly one of the
  two; otherwise the three counters stay zero.
\<close>

theorem validation_counters_balance:
  assumes run: "reachable (enrichPool e sp results cg v d c) s" and fin: "finished s"
    and cpu: "0 < NumCPU e"
  shows "total (countersAfter (trace s))
           = valid (countersAfter (trace s)) + invalid (countersAfter (trace s)) \<and>
         (v \<and> cg \<noteq> None \<longrightarrow>
            total (countersAfter (trace s)) = of_nat (length results) \<and>
            valid (countersAfter (trace s))
              = of_nat (length (filter (passesFilter sp cg v d) results)) \<and>
            invalid (countersAfter (trace s))
              = of_nat (length (filter (\<lambda>r. \<not> passesFilter sp cg v d r) results)))"
proof -
  note cnt = enrich_trace_count[OF run fin cpu]
  let ?V = "length (filter (passesFilter sp cg v d) results)"
  let ?I = "length (filter (\<lambda>r. \<not> passesFilter sp cg v d r) results)"
  have len: "?V + ?I = length results"
    by (rule sum_length_filter_compl)
  show ?thesis
  proof (cases "v \<and> cg \<noteq> None")
    case True
    have t: "count (mset (trace s)) IncTotal = length results"
      unfolding cnt eventsFor_counts(1)[OF True] by (simp add: sum_list_triv)
    have va: "count (mset (trace s)) IncValid = ?V"
      unfolding cnt eventsFor_counts(2)[OF True] by (rule sum_list_indicator)
    have iv: "count (mset (trace s)) IncInvalid = ?I"
      unfolding cnt eventsFor_counts(3)[OF True] by (rule sum_list_indicator)
    have "(of_nat (length results) :: 32 word) = of_nat ?V + of_nat ?I"
      unfolding len[symmetric] by (rule of_nat_add)
    with t va iv True show ?thesis
      by (simp add: countersAfter_count)
  next
    case False
    then have z: "count (mset (trace s)) a = 0" for a
      unfolding cnt by (auto simp: eventsFor_def)
    have "countersAfter (trace s) = \<lparr>total = 0, valid = 0, invalid = 0\<rparr>"
      unfolding countersAfter_count z by simp
    with False show ?thesis by auto
  qed
qed

theorem validation_counters_balance_witness:
  "countersAfter (trace demoFinal) = \<lparr>total = 3, valid = 2, invalid = 1\<rparr>"
proof -
  have cpu: "0 < NumCPU demoEnv" by (simp add: demoEnv_def)
  have len: "length demoResults = 3"
    "length [demoResult ''f0'' 1 ''f2'' 21, demoResult ''f6'' 61 ''f5'' 51] = 2"
    "length [demoResult ''f0'' 1 ''f7'' 71] = 1"
    by (simp_all add: demoResults_def)
  note inst = validation_counters_balance[OF demo_run[unfolded demoPool_def] demo_finished cpu]
  have "total (countersAfter (trace demoFinal)) = of_nat (length demoResults) \<and>
            valid (countersAfter (trace demoFinal))
              = of_nat (length (filter (passesFilter refShortestPath
                    (Some (BuildCallGraph chain_registry)) True 3) demoResults)) \<and>
            invalid (countersAfter (trace demoFinal))
              = of_nat (length (filter (\<lambda>r. \<not> passesFilter refShortestPath
                    (Some (BuildCallGraph chain_registry)) True 3 r) demoResults))"
    by (rule inst[THEN conjunct2, THEN mp]) simp
  then have "total (countersAfter (trace demoFinal)) = 3"
    "valid (countersAfter (trace demoFinal)) = 2"
    "invalid (countersAfter (trace demoFinal)) = 1"
    unfolding demo_passes len by simp_all
  then show ?thesis by (cases "countersAfter (trace demoFinal)") simp
qed

text \<open>
  Claim C4, as stated, fails for the enrichment pipeline: a worker of \<^verbatim>\<open>EnrichResults\<close>
  whose enrichment returns an error puts a finding with empty source code in its place,
  and the caller gets a nil error. Here the parser finds no function, the only worker's
  enrichment fails, and the finished run returns that one finding and no error.
\<close>

theorem enrich_returns_no_error:
  "enrichWithSourceCode failEnv (demoResult ''f0'' 1 ''f2'' 21) =
     Inl ''failed to find free function src/chain.c:1:f0: function not found: src/chain.c:1:f0'' \<and>
   reachable failPool failFinal \<and> finished failFinal \<and>
   EnrichResults_return 1 failFinal =
     ([\<lparr>CodeQLResult = demoResult ''f0'' 1 ''f2'' 21, SourceCode = emptySourceCode,
        CallValidation = None\<rparr>], None)"
proof (intro conjI)
  show "enrichWithSourceCode failEnv (demoResult ''f0'' 1 ''f2'' 21) =
     Inl ''failed to find free function src/chain.c:1:f0: function not found: src/chain.c:1:f0''"
    by (rule fail_enrich)
  show "reachable failPool failFinal" by (rule fail_run)
  show "finished failFinal" by (simp add: finished_def failFinal_def)
  show "EnrichResults_return 1 failFinal =
     ([\<lparr>CodeQLResult = demoResult ''f0'' 1 ''f2'' 21, SourceCode = emptySourceCode,
        CallValidation = None\<rparr>], None)"
    by (simp add: EnrichResults_return_def failFinal_def orderedResults_def
        collectFindings_def List.map_filter_simps)
qed

text \<open>
  Claim C4, amended. The generic pool \<^verbatim>\<open>WorkerPool.ProcessItems\<close>, for every requested
  concurrency and when its context is not cancelled, returns once the result channel is
  closed: every item has been processed
  and its result arrived, the returned slice holds the processor's value for every item,
  in input order, and the returned error is the first error in the order of arrival of
  the results, nil exactly when no item failed. \<^verbatim>\<open>EnrichResults\<close> returns a nil error
  from every state.
\<close>

theorem worker_pool_first_error:
  assumes run: "reachable (processPool (NewWorkerPool concurrency) False items processor) s"
    and fin: "finished s"
  shows "ProcessItems_return zero (length items) s
           = (map (\<lambda>x. fst (processor x)) items, firstError (resultChan s)) \<and>
         mset (map fst (resultChan s)) = mset [0..<length items] \<and>
         (firstError (resultChan s) = None \<longleftrightarrow> (\<forall>x \<in> set items. snd (processor x) = None)) \<and>
         snd (EnrichResults_return n s') = None"
proof -
  let ?cfg = "processPool (NewWorkerPool concurrency) False items processor"
  have nc: "\<not> cancellable ?cfg" and nw: "0 < numWorkers ?cfg"
    and n: "numItems ?cfg = length items"
    by (simp_all add: processPool_def NewWorkerPool_positive)
  note fr = finished_results[OF run nc processPool_neverPanics nw fin]
  from fr(1) have idx: "mset (map fst (resultChan s)) = mset [0..<length items]"
    by (simp add: n)
  then have "set (map fst (resultChan s)) = set [0..<length items]" by (rule mset_eq_setD)
  then have dom: "fst ` set (resultChan s) = {0..<length items}" by simp
  from fr(2) have pay: "\<forall>(i, x) \<in> set (resultChan s). x = processor (items ! i)"
    by (auto simp: payloadOf_def processPool_def)
  have det: "\<forall>(i, x, err) \<in> set (resultChan s).
               x = fst (processor (items ! i)) \<and> i < length items"
  proof (clarify)
    fix i x err assume m: "(i, x, err) \<in> set (resultChan s)"
    with pay have "(x, err) = processor (items ! i)" by auto
    then have "x = fst (processor (items ! i))" by (metis fst_conv)
    moreover from m have "i \<in> fst ` set (resultChan s)" by force
    then have "i < length items" unfolding dom by simp
    ultimately show "x = fst (processor (items ! i)) \<and> i < length items" by simp
  qed
  have res: "ProcessItems_return zero (length items) s
           = (map (\<lambda>x. fst (processor x)) items, firstError (resultChan s))"
  proof (cases "length items = 0")
    case True
    with idx show ?thesis by (simp add: ProcessItems_return_def)
  next
    case False
    have "map (\<lambda>j. if j \<in> fst ` set (resultChan s) then fst (processor (items ! j)) else zero)
              [0..<length items]
          = map (\<lambda>j. fst (processor (items ! j))) [0..<length items]"
      unfolding dom by (intro map_cong) auto
    also have "\<dots> = map (\<lambda>x. fst (processor x)) (map (\<lambda>j. items ! j) [0..<length items])"
      by simp
    also have "\<dots> = map (\<lambda>x. fst (processor x)) items" by (simp only: map_nth)
    finally show ?thesis
      using False by (simp add: ProcessItems_return_def store_fold[OF det])
  qed
  have "(\<forall>(i, x, err) \<in> set (resultChan s). err = None)
          \<longleftrightarrow> (\<forall>x \<in> set items. snd (processor x) = None)"
  proof
    assume a: "\<forall>(i, x, err) \<in> set (resultChan s). err = None"
    show "\<forall>x \<in> set items. snd (processor x) = None"
    proof
      fix x assume "x \<in> set items"
      then obtain i where i: "i < length items" "items ! i = x" by (auto simp: in_set_conv_nth)
      with dom obtain y where y: "(i, y) \<in> set (resultChan s)" by force
      with pay have "y = processor x" using i by auto
      with a y show "snd (processor x) = None" by (cases "processor x") auto
    qed
  next
    assume a: "\<forall>x \<in> set items. snd (processor x) = None"
    show "\<forall>(i, x, err) \<in> set (resultChan s). err = None"
    proof (clarify)
      fix i x err assume m: "(i, x, err) \<in> set (resultChan s)"
      with pay have p: "(x, err) = processor (items ! i)" by auto
      from m dom have "i < length items" by force
      with a have "snd (processor (items ! i)) = None" by simp
      with p show "err = None" by (metis snd_conv)
    qed
  qed
  with res idx show ?thesis
    by (simp add: firstError_None EnrichResults_return_def)
qed

text \<open>In the concrete run the second and the third item fail, and the error returned is
  that of the third item, whose result arrived first.\<close>

theorem worker_pool_first_error_witness:
  "ProcessItems_return 0 (length demoItems) workFinal
     = ([20, 40, 60], Some ''cannot process 30'')"
proof -
  have fin: "finished workFinal" by (simp add: finished_def workFinal_def)
  have "ProcessItems_return 0 (length demoItems) workFinal
           = (map (\<lambda>x. fst (demoProcessor x)) demoItems, firstError (resultChan workFinal))"
    by (rule worker_pool_first_error[OF work_run[unfolded workPool_def] fin, THEN conjunct1])
  moreover have "map (\<lambda>x. fst (demoProcessor x)) demoItems = [20, 40, 60]"
    by (simp add: demoItems_def work_processor)
  moreover have "firstError (resultChan workFinal) = Some ''cannot process 30''"
    by (simp add: workFinal_def)
  ultimately show ?thesis by (simp only:)
qed


end
